theory Spec2Isabelle
  imports Complex_Main "HOL-Library.Word"
begin

section \<open>Strings of the renderer script\<close>

text \<open>
  A JavaScript string is a sequence of UTF-16 code units. The regular expressions of the
  script carry no \<open>u\<close> flag, so they match code unit by code unit, and \<open>length\<close>,
  \<open>slice\<close> and the caret offsets of text nodes count code units as well.
\<close>

type_synonym code_unit = "16 word"
type_synonym jsstring = "code_unit list"

definition js :: "string \<Rightarrow> jsstring" where
  "js s = map (\<lambda>c. of_nat (of_char c)) s"

abbreviation dollar :: code_unit where
  "dollar \<equiv> 36"

abbreviation newline :: code_unit where
  "newline \<equiv> 10"

text \<open>
  \<open>String.prototype.trim\<close> strips WhiteSpace and LineTerminator code units from both
  ends: TAB, LF, VT, FF, CR, SP, NBSP, U+1680, U+2000 to U+200A, U+2028, U+2029, U+202F,
  U+205F, U+3000 and U+FEFF.
\<close>

definition isTrimSpace :: "code_unit \<Rightarrow> bool" where
  "isTrimSpace c \<longleftrightarrow>
     c \<in> set [9, 10, 11, 12, 13, 32, 160, 5760,
               8192, 8193, 8194, 8195, 8196, 8197, 8198, 8199, 8200, 8201, 8202,
               8232, 8233, 8239, 8287, 12288, 65279]"

definition trim :: "jsstring \<Rightarrow> jsstring" where
  "trim s = rev (dropWhile isTrimSpace (rev (dropWhile isTrimSpace s)))"

text \<open>\<open>value.slice(a, b)\<close> for indices that are not negative.\<close>

definition js_slice :: "jsstring \<Rightarrow> nat \<Rightarrow> nat \<Rightarrow> jsstring" where
  "js_slice v a b = take (b - a) (drop a v)"

section \<open>The document tree\<close>

text \<open>
  A node of the editor's DOM tree: a text node with its \<open>nodeValue\<close>, a comment, or an
  element with its namespace, its tag, its class list, its attributes and its child
  nodes. An element is an \<open>HTMLElement\<close> exactly when it is in the HTML namespace; an
  SVG or MathML element is an \<open>Element\<close> only. A node is referred to by its path from
  the editor element: the child indices on the way down; the empty path is the editor
  element itself.
\<close>

datatype namespace = HTML | SVG | MathML

datatype node =
    TextNode jsstring
  | CommentNode jsstring
  | Element namespace string "string list" "(string \<times> jsstring) list" "node list"

type_synonym path = "nat list"

fun isTextNode :: "node \<Rightarrow> bool" where
  "isTextNode (TextNode _) = True"
| "isTextNode _ = False"

fun isElement :: "node \<Rightarrow> bool" where
  "isElement (Element _ _ _ _ _) = True"
| "isElement _ = False"

text \<open>\<open>node instanceof HTMLElement\<close>\<close>

fun isHTMLElement :: "node \<Rightarrow> bool" where
  "isHTMLElement (Element ns _ _ _ _) = (ns = HTML)"
| "isHTMLElement _ = False"

fun childNodes :: "node \<Rightarrow> node list" where
  "childNodes (Element _ _ _ _ cs) = cs"
| "childNodes _ = []"

fun getAttribute :: "node \<Rightarrow> string \<Rightarrow> jsstring option" where
  "getAttribute (Element _ _ _ as _) k = map_of as k"
| "getAttribute _ k = None"

text \<open>\<open>node instanceof HTMLElement && node.classList.contains("math-token")\<close>\<close>

fun isMathTokenNode :: "node \<Rightarrow> bool" where
  "isMathTokenNode (Element ns _ cl _ _) = (ns = HTML \<and> ''math-token'' \<in> set cl)"
| "isMathTokenNode _ = False"

section \<open>Widgets: raw form and creation\<close>

record math_raw =
  tex :: jsstring
  display :: bool
  delimiterSize :: nat
  raw :: jsstring

definition delimited :: "jsstring \<Rightarrow> bool \<Rightarrow> jsstring" where
  "delimited t d =
     (if d then [dollar, dollar] @ t @ [dollar, dollar] else [dollar] @ t @ [dollar])"

definition mathRawForToken :: "node \<Rightarrow> math_raw" where
  "mathRawForToken token =
     (let t = (case getAttribute token ''data-tex'' of None \<Rightarrow> [] | Some s \<Rightarrow> s);
          d = (getAttribute token ''data-display'' = Some (js ''true''))
      in \<lparr>tex = t, display = d, delimiterSize = (if d then 2 else 1), raw = delimited t d\<rparr>)"

text \<open>
  The rendering engine is outside the script: \<open>render t d\<close> is the markup
  \<open>katex.renderToString\<close> returns, parsed into nodes, or \<open>None\<close> when it throws.
\<close>

type_synonym renderer = "jsstring \<Rightarrow> bool \<Rightarrow> node list option"

definition createMathToken :: "renderer \<Rightarrow> jsstring \<Rightarrow> bool \<Rightarrow> node" where
  "createMathToken render t displayMode =
     Element HTML ''span'' [''math-token'']
       [(''contenteditable'', js ''false''),
        (''data-tex'', t),
        (''data-display'', js (if displayMode then ''true'' else ''false''))]
       (case render t displayMode of
          Some html \<Rightarrow> html
        | None \<Rightarrow> [TextNode (delimited t displayMode)])"

section \<open>The delimiter scanner\<close>

text \<open>
  The scanner is the regular expression
  \<^verbatim>\<open>/(\$\$([\s\S]+?)\$\$)|(\$([^$\n]+?)\$)/g\<close>, run by a backtracking matcher.
  A lazy \<open>+?\<close> takes one code unit, tries what follows the quantifier, and takes one
  more code unit each time that fails. \<open>block_body\<close> is \<^verbatim>\<open>[\s\S]+?\<close> followed by
  \<^verbatim>\<open>\$\$\<close> on the text after the opening delimiter, \<open>inline_body\<close> is
  \<^verbatim>\<open>[^$\n]+?\<close> followed by \<^verbatim>\<open>\$\<close>; both return the number of code units the
  quantifier took.
\<close>

fun block_body :: "jsstring \<Rightarrow> nat option" where
  "block_body [] = None"
| "block_body (c # cs) =
     (if take 2 cs = [dollar, dollar] then Some 1 else map_option Suc (block_body cs))"

fun inline_body :: "jsstring \<Rightarrow> nat option" where
  "inline_body [] = None"
| "inline_body (c # cs) =
     (if c = dollar \<or> c = newline then None
      else if take 1 cs = [dollar] then Some 1
      else map_option Suc (inline_body cs))"

text \<open>
  One attempt at one position: the first alternative, and the second only when the first
  has failed there. The result is whether the first alternative matched (group 1 is
  defined) and the length of the expression group (group 2 or group 4).
\<close>

definition match_at :: "jsstring \<Rightarrow> (bool \<times> nat) option" where
  "match_at s =
     (case (if take 2 s = [dollar, dollar] then block_body (drop 2 s) else None) of
        Some k \<Rightarrow> Some (True, k)
      | None \<Rightarrow>
          (case (if take 1 s = [dollar] then inline_body (drop 1 s) else None) of
             Some k \<Rightarrow> Some (False, k)
           | None \<Rightarrow> None))"

record regex_match =
  m_index :: nat
  m_block :: bool
  m_content :: jsstring
  m_text :: jsstring
  m_end :: nat

definition mk_match :: "jsstring \<Rightarrow> nat \<Rightarrow> bool \<Rightarrow> nat \<Rightarrow> regex_match" where
  "mk_match v i b k =
     (let d = (if b then 2 else 1)
      in \<lparr>m_index = i, m_block = b, m_content = js_slice v (i + d) (i + d + k),
          m_text = js_slice v i (i + k + 2 * d), m_end = i + k + 2 * d\<rparr>)"

text \<open>
  \<open>regex.exec(value)\<close> with \<open>lastIndex = i\<close>: the leftmost position from \<open>i\<close> on where an
  attempt succeeds; \<open>m_end\<close> is the \<open>lastIndex\<close> it leaves.
\<close>

function regex_exec :: "jsstring \<Rightarrow> nat \<Rightarrow> regex_match option" where
  "regex_exec v i =
     (if length v < i then None
      else (case match_at (drop i v) of
              Some (b, k) \<Rightarrow> Some (mk_match v i b k)
            | None \<Rightarrow> regex_exec v (Suc i)))"
  by pat_completeness auto
termination
  by (relation "measure (\<lambda>(v, i). Suc (length v) - i)") auto

lemma block_body_iff:
  "block_body s = Some k \<longleftrightarrow>
     1 \<le> k \<and> take 2 (drop k s) = [dollar, dollar] \<and>
     (\<forall>j. 1 \<le> j \<and> j < k \<longrightarrow> take 2 (drop j s) \<noteq> [dollar, dollar])"
proof (induction s arbitrary: k)
  case Nil
  show ?case by simp
next
  case (Cons c cs)
  show ?case
  proof (cases "take 2 cs = [dollar, dollar]")
    case True
    have "k = 1" if "1 \<le> k" "\<forall>j. 1 \<le> j \<and> j < k \<longrightarrow> take 2 (drop j (c # cs)) \<noteq> [dollar, dollar]"
    proof (rule ccontr)
      assume "k \<noteq> 1"
      with that(1) have "1 < k" by simp
      with that(2) have "take 2 (drop 1 (c # cs)) \<noteq> [dollar, dollar]" by blast
      with True show False by simp
    qed
    with True show ?thesis by auto
  next
    case False
    show ?thesis
    proof
      assume "block_body (c # cs) = Some k"
      with False obtain k' where k': "block_body cs = Some k'" "k = Suc k'" by auto
      from k'(1) Cons.IH[of k'] have a: "1 \<le> k'" "take 2 (drop k' cs) = [dollar, dollar]"
        "\<forall>j. 1 \<le> j \<and> j < k' \<longrightarrow> take 2 (drop j cs) \<noteq> [dollar, dollar]" by auto
      have "take 2 (drop j (c # cs)) \<noteq> [dollar, dollar]" if "1 \<le> j" "j < k" for j
      proof (cases j)
        case 0 with that show ?thesis by simp
      next
        case (Suc j')
        show ?thesis
        proof (cases j')
          case 0 with Suc False show ?thesis by simp
        next
          case (Suc j'')
          with \<open>j = Suc j'\<close> that k'(2) a(3) show ?thesis by auto
        qed
      qed
      with a k'(2) show "1 \<le> k \<and> take 2 (drop k (c # cs)) = [dollar, dollar] \<and>
        (\<forall>j. 1 \<le> j \<and> j < k \<longrightarrow> take 2 (drop j (c # cs)) \<noteq> [dollar, dollar])" by auto
    next
      assume r: "1 \<le> k \<and> take 2 (drop k (c # cs)) = [dollar, dollar] \<and>
        (\<forall>j. 1 \<le> j \<and> j < k \<longrightarrow> take 2 (drop j (c # cs)) \<noteq> [dollar, dollar])"
      then obtain k' where k': "k = Suc k'" by (cases k) auto
      with r False have "k' \<noteq> 0" by (cases k') auto
      have "\<forall>j. 1 \<le> j \<and> j < k' \<longrightarrow> take 2 (drop j cs) \<noteq> [dollar, dollar]"
      proof (intro allI impI)
        fix j assume "1 \<le> j \<and> j < k'"
        then have "1 \<le> Suc j \<and> Suc j < k" using k' by simp
        with r have "take 2 (drop (Suc j) (c # cs)) \<noteq> [dollar, dollar]" by blast
        then show "take 2 (drop j cs) \<noteq> [dollar, dollar]" by simp
      qed
      with r k' \<open>k' \<noteq> 0\<close> Cons.IH[of k'] have "block_body cs = Some k'" by auto
      with False k' show "block_body (c # cs) = Some k" by simp
    qed
  qed
qed

lemma inline_body_iff:
  "inline_body s = Some k \<longleftrightarrow>
     1 \<le> k \<and> take 1 (drop k s) = [dollar] \<and>
     (\<forall>c \<in> set (take k s). c \<noteq> dollar \<and> c \<noteq> newline)"
proof (induction s arbitrary: k)
  case Nil
  show ?case by simp
next
  case (Cons c cs)
  show ?case
  proof (cases "c = dollar \<or> c = newline")
    case True
    then show ?thesis by (cases k) auto
  next
    case nc: False
    show ?thesis
    proof (cases "take 1 cs = [dollar]")
      case True
      then obtain cs' where cs: "cs = dollar # cs'" by (cases cs) auto
      show ?thesis
      proof (cases k)
        case 0 with nc cs show ?thesis by simp
      next
        case (Suc k')
        with nc cs show ?thesis by (cases k') auto
      qed
    next
      case False
      show ?thesis
      proof (cases k)
        case 0 with nc False show ?thesis by auto
      next
        case (Suc k')
        with nc False Cons.IH[of k'] show ?thesis by (cases k') auto
      qed
    qed
  qed
qed

lemma block_body_None_iff:
  "block_body s = None \<longleftrightarrow> (\<forall>j. 1 \<le> j \<longrightarrow> take 2 (drop j s) \<noteq> [dollar, dollar])"
proof
  assume n: "block_body s = None"
  show "\<forall>j. 1 \<le> j \<longrightarrow> take 2 (drop j s) \<noteq> [dollar, dollar]"
  proof (rule ccontr)
    assume "\<not> ?thesis"
    then have ex: "\<exists>j. 1 \<le> j \<and> take 2 (drop j s) = [dollar, dollar]" by blast
    define P where "P j \<longleftrightarrow> 1 \<le> j \<and> take 2 (drop j s) = [dollar, dollar]" for j
    from ex have "\<exists>j. P j" by (simp add: P_def)
    then have "P (LEAST j. P j)" by (blast intro: LeastI)
    moreover have "\<forall>j. j < (LEAST j. P j) \<longrightarrow> \<not> P j" using not_less_Least by blast
    ultimately have "block_body s = Some (LEAST j. P j)"
      unfolding block_body_iff P_def by blast
    with n show False by simp
  qed
next
  assume a: "\<forall>j. 1 \<le> j \<longrightarrow> take 2 (drop j s) \<noteq> [dollar, dollar]"
  show "block_body s = None"
  proof (cases "block_body s")
    case None then show ?thesis .
  next
    case (Some k)
    then have "1 \<le> k \<and> take 2 (drop k s) = [dollar, dollar]" by (simp add: block_body_iff)
    with a show ?thesis by blast
  qed
qed

lemma block_body_bound: "block_body s = Some k \<Longrightarrow> 1 \<le> k \<and> k + 2 \<le> length s"
proof -
  assume "block_body s = Some k"
  then have k: "1 \<le> k" "take 2 (drop k s) = [dollar, dollar]" by (simp_all add: block_body_iff)
  from k(2) have "length (take 2 (drop k s)) = 2" by simp
  then have "k + 2 \<le> length s" by simp
  with k(1) show ?thesis by simp
qed

lemma inline_body_bound: "inline_body s = Some k \<Longrightarrow> 1 \<le> k \<and> k + 1 \<le> length s"
proof -
  assume "inline_body s = Some k"
  then have k: "1 \<le> k" "take 1 (drop k s) = [dollar]" by (simp_all add: inline_body_iff)
  from k(2) have "length (take 1 (drop k s)) = 1" by simp
  then have "k + 1 \<le> length s" by simp
  with k(1) show ?thesis by simp
qed

lemma match_at_block_iff:
  "match_at s = Some (True, k) \<longleftrightarrow> take 2 s = [dollar, dollar] \<and> block_body (drop 2 s) = Some k"
  by (auto simp: match_at_def split: option.splits if_splits)

lemma match_at_inline_iff:
  "match_at s = Some (False, k) \<longleftrightarrow>
     (take 2 s = [dollar, dollar] \<longrightarrow> block_body (drop 2 s) = None) \<and>
     take 1 s = [dollar] \<and> inline_body (drop 1 s) = Some k"
  by (auto simp: match_at_def split: option.splits if_splits)

lemma match_at_bound:
  assumes "match_at s = Some (b, k)"
  shows "1 \<le> k \<and> k + 2 * (if b then 2 else 1) \<le> length s"
proof (cases b)
  case True
  with assms have "block_body (drop 2 s) = Some k" by (simp add: match_at_block_iff)
  from block_body_bound[OF this] True show ?thesis by auto
next
  case False
  with assms have "inline_body (drop 1 s) = Some k" by (simp add: match_at_inline_iff)
  from inline_body_bound[OF this] False show ?thesis by auto
qed

lemma match_at_Nil [simp]: "match_at [] = None"
  by (simp add: match_at_def)

declare regex_exec.simps [simp del]

lemma regex_exec_Some:
  "regex_exec v i = Some m \<Longrightarrow>
     \<exists>j b k. i \<le> j \<and> j \<le> length v \<and> match_at (drop j v) = Some (b, k) \<and>
             m = mk_match v j b k \<and>
             (\<forall>j'. i \<le> j' \<and> j' < j \<longrightarrow> match_at (drop j' v) = None)"
proof (induction v i rule: regex_exec.induct)
  case (1 v i)
  from "1.prems" have le: "i \<le> length v"
    by (subst (asm) regex_exec.simps) (simp split: if_splits)
  show ?case
  proof (cases "match_at (drop i v)")
    case None
    with "1.prems" le have r: "regex_exec v (Suc i) = Some m"
      by (subst (asm) regex_exec.simps) simp
    have nl: "\<not> length v < i" using le by simp
    from "1.IH"[OF nl None r] obtain j b k where j: "Suc i \<le> j" "j \<le> length v"
      "match_at (drop j v) = Some (b, k)" "m = mk_match v j b k"
      "\<forall>j'. Suc i \<le> j' \<and> j' < j \<longrightarrow> match_at (drop j' v) = None" by blast
    have "\<forall>j'. i \<le> j' \<and> j' < j \<longrightarrow> match_at (drop j' v) = None"
    proof (intro allI impI)
      fix j' assume a: "i \<le> j' \<and> j' < j"
      show "match_at (drop j' v) = None"
      proof (cases "j' = i")
        case True with None show ?thesis by simp
      next
        case False with a j(5) show ?thesis by simp
      qed
    qed
    with j show ?thesis by (intro exI[of _ j] exI[of _ b] exI[of _ k]) simp
  next
    case (Some bk)
    obtain b k where bk: "bk = (b, k)" by (cases bk)
    with Some "1.prems" le have "m = mk_match v i b k"
      by (subst (asm) regex_exec.simps) simp
    with Some bk le show ?thesis by (intro exI[of _ i] exI[of _ b] exI[of _ k]) simp
  qed
qed

lemma regex_exec_None:
  "regex_exec v i = None \<Longrightarrow> i \<le> j \<Longrightarrow> match_at (drop j v) = None"
proof (induction v i rule: regex_exec.induct)
  case (1 v i)
  show ?case
  proof (cases "length v < i")
    case True
    with "1.prems" show ?thesis by simp
  next
    case False
    from "1.prems"(1) have
      "(if length v < i then None
        else (case match_at (drop i v) of
                Some (b, k) \<Rightarrow> Some (mk_match v i b k)
              | None \<Rightarrow> regex_exec v (Suc i))) = None"
      by (subst (asm) regex_exec.simps)
    with False have n: "match_at (drop i v) = None" "regex_exec v (Suc i) = None"
      by (auto split: option.splits)
    show ?thesis
    proof (cases "j = i")
      case True with n show ?thesis by simp
    next
      case ne: False
      with "1.prems" have "Suc i \<le> j" by simp
      from "1.IH"[OF False n(1) n(2) this] show ?thesis .
    qed
  qed
qed

lemma regex_exec_bounds:
  assumes "regex_exec v i = Some m"
  shows "i \<le> m_index m \<and> m_index m + 3 \<le> m_end m \<and> m_end m \<le> length v"
proof -
  from regex_exec_Some[OF assms] obtain j b k where j: "i \<le> j" "j \<le> length v"
    "match_at (drop j v) = Some (b, k)" "m = mk_match v j b k" by blast
  from match_at_bound[OF j(3)] have "1 \<le> k" "k + 2 * (if b then 2 else 1) \<le> length v - j"
    by simp_all
  with j show ?thesis by (cases b) (simp_all add: mk_match_def)
qed

text \<open>
  The matches the \<open>while (match)\<close> loop of \<open>runMathPass\<close> sees on one text value:
  \<open>regex.exec\<close> again and again, each time from the \<open>lastIndex\<close> the last one left.
\<close>

function matches_from :: "jsstring \<Rightarrow> nat \<Rightarrow> regex_match list" where
  "matches_from v i =
     (case regex_exec v i of
        None \<Rightarrow> []
      | Some m \<Rightarrow> m # matches_from v (m_end m))"
  by pat_completeness auto
termination
proof (relation "measure (\<lambda>(v, i). length v - i)")
  show "wf (measure (\<lambda>(v, i). length v - i))" by simp
next
  fix v i m
  assume "regex_exec v i = Some m"
  from regex_exec_bounds[OF this]
  show "((v, m_end m), (v, i)) \<in> measure (\<lambda>(v, i). length v - i)" by auto
qed

declare matches_from.simps [simp del]

text \<open>
  What the loop appends for one match: a widget when the trimmed expression is not empty,
  the matched text itself otherwise.
\<close>

definition match_node :: "renderer \<Rightarrow> regex_match \<Rightarrow> node" where
  "match_node render m =
     (let t = trim (m_content m)
      in if 0 < length t then createMathToken render t (m_block m) else TextNode (m_text m))"

text \<open>
  The fragment \<open>runMathPass\<close> builds for a text value (the body of its second loop), from
  the value \<open>last'\<close> of the loop variable \<open>last\<close> on.
\<close>

function fragment_from :: "renderer \<Rightarrow> jsstring \<Rightarrow> nat \<Rightarrow> node list" where
  "fragment_from render v last' =
     (case regex_exec v last' of
        None \<Rightarrow> (if last' < length v then [TextNode (js_slice v last' (length v))] else [])
      | Some m \<Rightarrow>
          (if last' < m_index m then [TextNode (js_slice v last' (m_index m))] else [])
          @ [match_node render m]
          @ fragment_from render v (m_end m))"
  by pat_completeness auto
termination
proof (relation "measure (\<lambda>(render, v, i). length v - i)")
  show "wf (measure (\<lambda>(render, v, i). length v - i))" by simp
next
  fix render :: renderer and v i m
  assume "regex_exec v i = Some m"
  from regex_exec_bounds[OF this]
  show "((render, v, m_end m), (render, v, i)) \<in> measure (\<lambda>(render, v, i). length v - i)"
    by auto
qed

declare fragment_from.simps [simp del]

definition mathFragment :: "renderer \<Rightarrow> jsstring \<Rightarrow> node list" where
  "mathFragment render v = fragment_from render v 0"

text \<open>
  What one pass makes of an eligible text node: the nodes that stand in its place. A
  value with no \<open>$\<close>, or on which the test expression finds nothing, is left alone.
\<close>

definition runMathPassOnText :: "renderer \<Rightarrow> jsstring \<Rightarrow> node list" where
  "runMathPassOnText render v =
     (if dollar \<in> set v \<and> regex_exec v 0 \<noteq> None then mathFragment render v
      else [TextNode v])"

section \<open>Selection and editor state\<close>

fun nodeAt :: "node \<Rightarrow> path \<Rightarrow> node option" where
  "nodeAt n [] = Some n"
| "nodeAt n (i # p) =
     (if i < length (childNodes n) then nodeAt (childNodes n ! i) p else None)"

text \<open>\<open>old.replaceWith(new)\<close> for the node at a path below the root.\<close>

fun replaceAt :: "node \<Rightarrow> path \<Rightarrow> node \<Rightarrow> node" where
  "replaceAt (Element ns tg cl as cs) (i # p) new =
     (if i < length cs
      then Element ns tg cl as (cs[i := (if p = [] then new else replaceAt (cs ! i) p new)])
      else Element ns tg cl as cs)"
| "replaceAt n p new = n"

text \<open>
  A range of the selection: each boundary point is a container and an offset. The
  container is a path into the editor, or \<open>None\<close> for a node outside the editor.
  \<open>window.getSelection()\<close> is taken to return a selection object; \<open>selection\<close> is
  \<open>None\<close> when its \<open>rangeCount\<close> is 0.
\<close>

record dom_range =
  startContainer :: "path option"
  startOffset :: nat
  endContainer :: "path option"
  endOffset :: nat

definition collapsedAt :: "path \<Rightarrow> nat \<Rightarrow> dom_range" where
  "collapsedAt p off =
     \<lparr>startContainer = Some p, startOffset = off, endContainer = Some p, endOffset = off\<rparr>"

definition isCollapsed :: "dom_range \<Rightarrow> bool" where
  "isCollapsed r \<longleftrightarrow> startContainer r = endContainer r \<and> startOffset r = endOffset r"

text \<open>
  The state the handlers read and write: the editor element with its tree, the
  selection, the text node \<open>activeMathEdit\<close> refers to, whether \<open>scheduleSave\<close> has armed
  the save timer, and whether \<open>updateMathPreview\<close> has been called.
\<close>

record editor_state =
  editor :: node
  selection :: "dom_range option"
  activeMathEdit :: "path option"
  saveScheduled :: bool
  previewRefreshed :: bool

definition scheduleSave :: "editor_state \<Rightarrow> editor_state" where
  "scheduleSave st = st\<lparr>saveScheduled := True\<rparr>"

definition updateMathPreviewCalled :: "editor_state \<Rightarrow> editor_state" where
  "updateMathPreviewCalled st = st\<lparr>previewRefreshed := True\<rparr>"

text \<open>
  \<open>setCaret(node, offset)\<close> for a text node at path \<open>p\<close>: the offset is clamped to the
  length of the node's value.
\<close>

definition nodeValueLength :: "node \<Rightarrow> path \<Rightarrow> nat" where
  "nodeValueLength ed p =
     (case nodeAt ed p of Some (TextNode s) \<Rightarrow> length s | Some (CommentNode s) \<Rightarrow> length s | _ \<Rightarrow> 0)"

definition setCaret :: "path \<Rightarrow> int \<Rightarrow> editor_state \<Rightarrow> editor_state" where
  "setCaret p offset st =
     st\<lparr>selection :=
          Some (collapsedAt p (nat (max 0 (min offset (int (nodeValueLength (editor st) p))))))\<rparr>"

definition getCollapsedEditorRange :: "editor_state \<Rightarrow> (path \<times> nat) option" where
  "getCollapsedEditorRange st =
     (case selection st of
        None \<Rightarrow> None
      | Some r \<Rightarrow>
          if \<not> isCollapsed r then None
          else (case startContainer r of
                  None \<Rightarrow> None
                | Some p \<Rightarrow> Some (p, startOffset r)))"

section \<open>Neighbours of the caret\<close>

datatype direction = Next | Prev

text \<open>
  The sibling loops walk from a node in one direction while the sibling is a text node
  they skip. \<open>firstKept skip ns\<close> is the position, in the siblings in walking order, of
  the first one that is not skipped.
\<close>

fun firstKept :: "(node \<Rightarrow> bool) \<Rightarrow> node list \<Rightarrow> nat option" where
  "firstKept skip [] = None"
| "firstKept skip (n # ns) = (if skip n then map_option Suc (firstKept skip ns) else Some 0)"

definition siblingIndex :: "(node \<Rightarrow> bool) \<Rightarrow> node list \<Rightarrow> nat \<Rightarrow> direction \<Rightarrow> nat option" where
  "siblingIndex skip sibs i dir =
     (case dir of
        Next \<Rightarrow> map_option (\<lambda>k. i + 1 + k) (firstKept skip (drop (Suc i) sibs))
      | Prev \<Rightarrow> map_option (\<lambda>k. i - 1 - k) (firstKept skip (rev (take i sibs))))"

text \<open>\<open>sibling.nodeType === Node.TEXT_NODE && !(sibling.nodeValue || "").length\<close>\<close>

fun isEmptyText :: "node \<Rightarrow> bool" where
  "isEmptyText (TextNode s) = (length s = 0)"
| "isEmptyText _ = False"

text \<open>\<open>sibling.nodeType === Node.TEXT_NODE && !(sibling.nodeValue || "").trim()\<close>\<close>

fun isBlankText :: "node \<Rightarrow> bool" where
  "isBlankText (TextNode s) = (trim s = [])"
| "isBlankText _ = False"

definition adjacentSignificantSibling :: "node \<Rightarrow> path \<Rightarrow> direction \<Rightarrow> path option" where
  "adjacentSignificantSibling ed p dir =
     (if p = [] then None
      else (case nodeAt ed (butlast p) of
              None \<Rightarrow> None
            | Some parent \<Rightarrow>
                map_option (\<lambda>k. butlast p @ [k])
                  (siblingIndex isEmptyText (childNodes parent) (last p) dir)))"

definition mathTokenAt :: "node \<Rightarrow> path option \<Rightarrow> path option" where
  "mathTokenAt ed sibling =
     (case sibling of
        None \<Rightarrow> None
      | Some q \<Rightarrow> (case nodeAt ed q of
                     Some n \<Rightarrow> if isMathTokenNode n then Some q else None
                   | None \<Rightarrow> None))"

definition adjacentMathToken :: "node \<Rightarrow> path \<times> nat \<Rightarrow> direction \<Rightarrow> path option" where
  "adjacentMathToken ed range' dir =
     (case range' of (container, offset) \<Rightarrow>
        (case nodeAt ed container of
           Some (TextNode text) \<Rightarrow>
             (let boundaryOffset = (if dir = Next then length text else 0)
              in if offset \<noteq> boundaryOffset then None
                 else mathTokenAt ed (adjacentSignificantSibling ed container dir))
         | Some (Element ns tg cl as cs) \<Rightarrow>
             mathTokenAt ed
               (if dir = Next then Some (container @ [offset])
                else if 0 < offset then Some (container @ [offset - 1]) else None)
         | _ \<Rightarrow> None))"

section \<open>Collapsing a widget to its raw text\<close>

text \<open>
  \<open>expandMathTokenWithOffset(token, offset)\<close>: the widget at path \<open>token\<close> is replaced by
  a text node with its raw form, which then sits at the same path (the function returns
  that text node); the caret is set into it, the text node becomes the active edit, the
  preview is refreshed and a save is scheduled. Focus is not part of the state.
\<close>

definition expandMathTokenWithOffset :: "path \<Rightarrow> int \<Rightarrow> editor_state \<Rightarrow> editor_state" where
  "expandMathTokenWithOffset token offset st =
     (case nodeAt (editor st) token of
        None \<Rightarrow> st
      | Some tokenNode \<Rightarrow>
          (let raw' = raw (mathRawForToken tokenNode);
               boundedOffset = max 0 (min offset (int (length raw')));
               st1 = st\<lparr>editor := replaceAt (editor st) token (TextNode raw')\<rparr>;
               st2 = setCaret token boundedOffset st1;
               st3 = st2\<lparr>activeMathEdit := Some token\<rparr>
           in scheduleSave (updateMathPreviewCalled st3)))"

datatype side = FromLeft | FromRight

definition expandMathTokenForBoundaryEdit :: "path \<Rightarrow> side \<Rightarrow> editor_state \<Rightarrow> editor_state" where
  "expandMathTokenForBoundaryEdit token fromSide st =
     (case nodeAt (editor st) token of
        None \<Rightarrow> st
      | Some tokenNode \<Rightarrow>
          (let r = mathRawForToken tokenNode;
               offset = (if fromSide = FromLeft then int (delimiterSize r)
                         else int (length (raw r)) - int (delimiterSize r))
           in expandMathTokenWithOffset token offset st))"

datatype key = Delete | Backspace | ArrowRight | ArrowLeft | OtherKey

text \<open>
  The handlers return whether they called \<open>event.preventDefault()\<close> (for the merge and
  delete helpers: their boolean result) together with the new state.
\<close>

definition handleArrowAcrossMathToken :: "key \<Rightarrow> editor_state \<Rightarrow> bool \<times> editor_state" where
  "handleArrowAcrossMathToken k st =
     (if k \<noteq> ArrowRight \<and> k \<noteq> ArrowLeft then (False, st)
      else (case getCollapsedEditorRange st of
              None \<Rightarrow> (False, st)
            | Some range' \<Rightarrow>
                (let dir = (if k = ArrowRight then Next else Prev)
                 in (case adjacentMathToken (editor st) range' dir of
                       None \<Rightarrow> (False, st)
                     | Some token \<Rightarrow>
                         (True, expandMathTokenForBoundaryEdit token
                                  (if dir = Next then FromLeft else FromRight) st)))))"

datatype del_direction = Backward | Forward

definition textValue :: "node \<Rightarrow> path \<Rightarrow> jsstring" where
  "textValue ed p = (case nodeAt ed p of Some (TextNode s) \<Rightarrow> s | _ \<Rightarrow> [])"

definition deleteCharInTextNode ::
    "path \<Rightarrow> nat \<Rightarrow> del_direction \<Rightarrow> editor_state \<Rightarrow> editor_state" where
  "deleteCharInTextNode textNode offset direction st =
     (let v = textValue (editor st) textNode
      in if direction = Backward then
           (if offset \<le> 0 then st
            else (let st1 = st\<lparr>editor := replaceAt (editor st) textNode
                              (TextNode (js_slice v 0 (offset - 1) @ js_slice v offset (length v)))\<rparr>;
                      st2 = setCaret textNode (int offset - 1) st1
                  in updateMathPreviewCalled (scheduleSave st2)))
         else
           (if length v \<le> offset then st
            else (let st1 = st\<lparr>editor := replaceAt (editor st) textNode
                              (TextNode (js_slice v 0 offset @ js_slice v (offset + 1) (length v)))\<rparr>;
                      st2 = setCaret textNode (int offset) st1
                  in updateMathPreviewCalled (scheduleSave st2))))"

definition tokenRaw :: "node \<Rightarrow> path \<Rightarrow> jsstring" where
  "tokenRaw ed token = (case nodeAt ed token of Some n \<Rightarrow> raw (mathRawForToken n) | None \<Rightarrow> [])"

definition editAdjacentMathTokenWithDelete :: "key \<Rightarrow> editor_state \<Rightarrow> bool \<times> editor_state" where
  "editAdjacentMathTokenWithDelete k st =
     (case getCollapsedEditorRange st of
        None \<Rightarrow> (False, st)
      | Some range' \<Rightarrow>
          (let dir = (if k = Backspace then Prev else Next)
           in (case adjacentMathToken (editor st) range' dir of
                 None \<Rightarrow> (False, st)
               | Some token \<Rightarrow>
                   (let st1 = expandMathTokenWithOffset token
                                (if dir = Prev
                                 then int (length (tokenRaw (editor st) token))
                                 else 0) st;
                        st2 = deleteCharInTextNode token
                                (if dir = Prev then length (textValue (editor st1) token) else 0)
                                (if dir = Prev then Backward else Forward) st1
                    in (True, st2)))))"

section \<open>Block edges\<close>

text \<open>
  \<open>nearestEditorChild(node)\<close>: from the node itself when it is an element, from its
  parent otherwise, up to the ancestor whose parent is the editor; the result is the
  index of that child of the editor. From the editor itself the walk leaves the editor
  and ends with \<open>null\<close>.
\<close>

definition nearestEditorChild :: "node \<Rightarrow> path \<Rightarrow> nat option" where
  "nearestEditorChild ed p =
     (case nodeAt ed p of
        None \<Rightarrow> None
      | Some n \<Rightarrow>
          (let current = (if isElement n then p else butlast p)
           in if current = [] then None else Some (hd current)))"

definition nextEditorChild :: "node \<Rightarrow> nat \<Rightarrow> nat option" where
  "nextEditorChild ed i = siblingIndex isBlankText (childNodes ed) i Next"

definition previousEditorChild :: "node \<Rightarrow> nat \<Rightarrow> nat option" where
  "previousEditorChild ed i = siblingIndex isBlankText (childNodes ed) i Prev"

text \<open>
  \<open>compareBoundaryPoints\<close> follows the DOM standard: the position of a boundary point
  \<open>(a, oa)\<close> relative to \<open>(b, ob)\<close>. Points in one node compare by offset; when \<open>a\<close>
  follows \<open>b\<close> in tree order the answer is the opposite of the reversed question; when \<open>a\<close> is
  an ancestor of \<open>b\<close> and the child of \<open>a\<close> that holds \<open>b\<close> has an index below \<open>oa\<close> the point is
  after; it is before in every other case.
\<close>

datatype position = Before | Equal | After

fun follows :: "path \<Rightarrow> path \<Rightarrow> bool" where
  "follows [] q = False"
| "follows (i # p) [] = True"
| "follows (i # p) (j # q) = (if i = j then follows p q else j < i)"

definition isAncestorPath :: "path \<Rightarrow> path \<Rightarrow> bool" where
  "isAncestorPath a b \<longleftrightarrow> length a < length b \<and> take (length a) b = a"

definition positionFromAncestor :: "path \<Rightarrow> nat \<Rightarrow> path \<Rightarrow> position" where
  "positionFromAncestor a oa b =
     (if isAncestorPath a b \<and> b ! length a < oa then After else Before)"

definition boundaryPosition :: "path \<Rightarrow> nat \<Rightarrow> path \<Rightarrow> nat \<Rightarrow> position" where
  "boundaryPosition a oa b ob =
     (if a = b then (if oa = ob then Equal else if oa < ob then Before else After)
      else if follows a b then
        (case positionFromAncestor b ob a of Before \<Rightarrow> After | After \<Rightarrow> Before | Equal \<Rightarrow> Equal)
      else positionFromAncestor a oa b)"

definition compareBoundaryPoints :: "path \<times> nat \<Rightarrow> path \<times> nat \<Rightarrow> int" where
  "compareBoundaryPoints this source =
     (case boundaryPosition (fst this) (snd this) (fst source) (snd source) of
        Before \<Rightarrow> -1 | Equal \<Rightarrow> 0 | After \<Rightarrow> 1)"

text \<open>
  The probe range is the contents of the container, collapsed to its start or to its
  end; the range is collapsed, so its end is its start.
\<close>

definition isRangeAtContainerStart :: "node \<Rightarrow> path \<times> nat \<Rightarrow> path \<Rightarrow> bool" where
  "isRangeAtContainerStart ed range' container \<longleftrightarrow>
     compareBoundaryPoints range' (container, 0) = 0"

definition isRangeAtContainerEnd :: "node \<Rightarrow> path \<times> nat \<Rightarrow> path \<Rightarrow> bool" where
  "isRangeAtContainerEnd ed range' container \<longleftrightarrow>
     compareBoundaryPoints range'
       (container, (case nodeAt ed container of
                      Some n \<Rightarrow> (if isElement n then length (childNodes n)
                                 else nodeValueLength ed container)
                    | None \<Rightarrow> 0)) = 0"

section \<open>Merging blocks\<close>

fun setChildNodes :: "node \<Rightarrow> node list \<Rightarrow> node" where
  "setChildNodes (Element ns tg cl as cs) cs' = Element ns tg cl as cs'"
| "setChildNodes n cs' = n"

definition appendChildren :: "node \<Rightarrow> node list \<Rightarrow> node" where
  "appendChildren n moved = setChildNodes n (childNodes n @ moved)"

definition removeAt :: "'a list \<Rightarrow> nat \<Rightarrow> 'a list" where
  "removeAt xs k = take k xs @ drop (Suc k) xs"

text \<open>
  The children of the editor's child \<open>src\<close> are appended, in order, to the editor's child
  \<open>dst\<close>, and \<open>src\<close> is removed from the editor.
\<close>

definition moveChildren :: "node \<Rightarrow> nat \<Rightarrow> nat \<Rightarrow> node" where
  "moveChildren ed src dst =
     (let blocks = childNodes ed
      in setChildNodes ed
           (removeAt (blocks[dst := appendChildren (blocks ! dst) (childNodes (blocks ! src))]) src))"

text \<open>
  \<open>activeMathEdit\<close> holds a reference to a text node, which stays the same node when the
  tree around it changes. With nodes named by paths, the path of that node after the
  move: below \<open>src\<close> it continues below \<open>dst\<close>, behind the \<open>n\<close> children \<open>dst\<close> had; after
  \<open>src\<close> in the editor it moves up by one.
\<close>

definition refAfterMove :: "nat \<Rightarrow> nat \<Rightarrow> nat \<Rightarrow> path \<Rightarrow> path" where
  "refAfterMove src dst n p =
     (case p of
        [] \<Rightarrow> []
      | m # rest \<Rightarrow>
          if m = src then
            (case rest of
               [] \<Rightarrow> p
             | j # r \<Rightarrow> (if src < dst then dst - 1 else dst) # (n + j) # r)
          else (if src < m then m - 1 else m) # rest)"

definition mergeWithNextEditorBlock :: "editor_state \<Rightarrow> bool \<times> editor_state" where
  "mergeWithNextEditorBlock st =
     (case getCollapsedEditorRange st of
        None \<Rightarrow> (False, st)
      | Some range' \<Rightarrow>
          (case nearestEditorChild (editor st) (fst range') of
             None \<Rightarrow> (False, st)
           | Some current \<Rightarrow>
               if \<not> isRangeAtContainerEnd (editor st) range' [current] then (False, st)
               else
                 (case nextEditorChild (editor st) current of
                    None \<Rightarrow> (False, st)
                  | Some next' \<Rightarrow>
                      (let blocks = childNodes (editor st);
                           n = length (childNodes (blocks ! current))
                       in if \<not> isHTMLElement (blocks ! next') then (False, st)
                          else if childNodes (blocks ! next') = [] then
                            (False,
                             st\<lparr>editor := setChildNodes (editor st) (removeAt blocks next'),
                                activeMathEdit :=
                                  map_option (refAfterMove next' current n) (activeMathEdit st)\<rparr>)
                          else
                            (True,
                             scheduleSave
                               (st\<lparr>editor := moveChildren (editor st) next' current,
                                   selection := Some (collapsedAt [current] n),
                                   activeMathEdit :=
                                     map_option (refAfterMove next' current n)
                                       (activeMathEdit st)\<rparr>))))))"

text \<open>
  After the move the caret is set after \<open>previousLast\<close>, the last child the previous
  block had; when it had none, before the first child it has now; and when it still has
  none, before the previous block itself, in the editor.
\<close>

definition mergeWithPreviousEditorBlock :: "editor_state \<Rightarrow> bool \<times> editor_state" where
  "mergeWithPreviousEditorBlock st =
     (case getCollapsedEditorRange st of
        None \<Rightarrow> (False, st)
      | Some range' \<Rightarrow>
          (case nearestEditorChild (editor st) (fst range') of
             None \<Rightarrow> (False, st)
           | Some current \<Rightarrow>
               if \<not> isRangeAtContainerStart (editor st) range' [current] then (False, st)
               else
                 (case previousEditorChild (editor st) current of
                    None \<Rightarrow> (False, st)
                  | Some previous \<Rightarrow>
                      (let blocks = childNodes (editor st);
                           n = length (childNodes (blocks ! previous))
                       in if \<not> isHTMLElement (blocks ! previous) then (False, st)
                          else
                            (True,
                             scheduleSave
                               (st\<lparr>editor := moveChildren (editor st) current previous,
                                   selection :=
                                     Some (if 0 < n then collapsedAt [previous] n
                                           else if childNodes (blocks ! current) \<noteq> []
                                             then collapsedAt [previous] 0
                                           else collapsedAt [] previous),
                                   activeMathEdit :=
                                     map_option (refAfterMove current previous n)
                                       (activeMathEdit st)\<rparr>))))))"

section \<open>The keydown handler of the editor\<close>

definition keydown :: "key \<Rightarrow> editor_state \<Rightarrow> bool \<times> editor_state" where
  "keydown k st =
     (case (if k = Delete \<or> k = Backspace then editAdjacentMathTokenWithDelete k st
            else (False, st)) of
        (True, st1) \<Rightarrow> (True, st1)
      | (False, st1) \<Rightarrow>
          (case (if k = Delete then mergeWithNextEditorBlock st1 else (False, st1)) of
             (True, st2) \<Rightarrow> (True, updateMathPreviewCalled st2)
           | (False, st2) \<Rightarrow>
               (case (if k = Backspace then mergeWithPreviousEditorBlock st2 else (False, st2)) of
                  (True, st3) \<Rightarrow> (True, updateMathPreviewCalled st3)
                | (False, st3) \<Rightarrow>
                    (case handleArrowAcrossMathToken k st3 of
                       (prevented, st4) \<Rightarrow> (prevented, updateMathPreviewCalled st4)))))"

section \<open>Placing the preview panel\<close>

text \<open>
  The last lines of \<open>updateMathPreview\<close>. Coordinates are JavaScript numbers, taken here
  as real numbers. \<open>x || d\<close> on numbers is \<open>d\<close> when \<open>x\<close> is 0.
\<close>

record client_rect =
  rect_left :: real
  rect_top :: real
  rect_bottom :: real

definition orDefault :: "real \<Rightarrow> real \<Rightarrow> real" where
  "orDefault x d = (if x = 0 then d else x)"

definition previewPlacement ::
    "client_rect \<Rightarrow> real \<Rightarrow> real \<Rightarrow> real \<Rightarrow> real \<Rightarrow> real \<times> real" where
  "previewPlacement caretRect offsetWidth offsetHeight innerWidth innerHeight =
     (let panelWidth = orDefault offsetWidth 320;
          panelHeight = orDefault offsetHeight 120;
          left = max 8 (min (rect_left caretRect) (innerWidth - panelWidth - 8));
          top0 = rect_top caretRect - panelHeight - 10;
          top1 = (if top0 < 8 then min (innerHeight - panelHeight - 8) (rect_bottom caretRect + 12)
                  else top0)
      in (left, top1))"

section \<open>Export to markdown\<close>

text \<open>
  The rule \<open>mathToken\<close> the script adds to the serializer: its filter and its
  replacement.
\<close>

fun mathTokenFilter :: "node \<Rightarrow> bool" where
  "mathTokenFilter (Element _ _ cl _ _) = (''math-token'' \<in> set cl)"
| "mathTokenFilter _ = False"

definition mathTokenReplacement :: "node \<Rightarrow> jsstring" where
  "mathTokenReplacement n =
     (let t = (case getAttribute n ''data-tex'' of None \<Rightarrow> [] | Some s \<Rightarrow> s);
          d = (getAttribute n ''data-display'' = Some (js ''true''))
      in if d then js ''\<newline>\<newline>$$\<newline>'' @ t @ js ''\<newline>$$\<newline>\<newline>''
         else [dollar] @ t @ [dollar])"

text \<open>
  \<open>exportMarkdown\<close> clones the editor and, before it hands the clone to the serializer,
  replaces every element of class \<open>math-token\<close> below it by a text node:
  \<open>$$tex$$\<close> for a display widget, \<open>$tex$\<close> for an inline one. Elements inside a
  replaced widget leave the clone with it.
\<close>

fun substituteTokens :: "node \<Rightarrow> node" where
  "substituteTokens (Element ns tg cl as cs) =
     (if ''math-token'' \<in> set cl
      then (let t = (case map_of as ''data-tex'' of None \<Rightarrow> [] | Some s \<Rightarrow> s);
                d = (map_of as ''data-display'' = Some (js ''true''))
            in TextNode (if d then [dollar, dollar] @ t @ [dollar, dollar]
                         else [dollar] @ t @ [dollar]))
      else Element ns tg cl as (map substituteTokens cs))"
| "substituteTokens n = n"

definition exportClone :: "node \<Rightarrow> node" where
  "exportClone ed = setChildNodes ed (map substituteTokens (childNodes ed))"

section \<open>The scanner and the scanning rule\<close>

subsection \<open>The scanning rule in the specification's words\<close>

text \<open>
  A block run at position \<open>i\<close> with an expression of \<open>k\<close> code units: \<open>$$\<close>, at least
  one code unit, \<open>$$\<close>. An inline run: \<open>$\<close>, at least one code unit, none of them \<open>$\<close>
  or a newline, \<open>$\<close>. The match at a position is the shortest block run when there is
  one, the shortest inline run otherwise.
\<close>

definition spec_block :: "jsstring \<Rightarrow> nat \<Rightarrow> nat \<Rightarrow> bool" where
  "spec_block v i k \<longleftrightarrow>
     1 \<le> k \<and> js_slice v i (i + 2) = [dollar, dollar] \<and>
     js_slice v (i + 2 + k) (i + 4 + k) = [dollar, dollar]"

definition spec_inline :: "jsstring \<Rightarrow> nat \<Rightarrow> nat \<Rightarrow> bool" where
  "spec_inline v i k \<longleftrightarrow>
     1 \<le> k \<and> js_slice v i (i + 1) = [dollar] \<and>
     js_slice v (i + 1 + k) (i + 2 + k) = [dollar] \<and>
     (\<forall>c \<in> set (js_slice v (i + 1) (i + 1 + k)). c \<noteq> dollar \<and> c \<noteq> newline)"

definition spec_match :: "jsstring \<Rightarrow> nat \<Rightarrow> bool \<Rightarrow> nat \<Rightarrow> bool" where
  "spec_match v i b k \<longleftrightarrow>
     (if b then spec_block v i k \<and> (\<forall>j<k. \<not> spec_block v i j)
      else (\<forall>j. \<not> spec_block v i j) \<and> spec_inline v i k \<and> (\<forall>j<k. \<not> spec_inline v i j))"

text \<open>
  The matches of a scan from position \<open>i\<close>: the leftmost position from \<open>i\<close> on that has a
  match, its match, and the matches of the scan from the end of that match.
\<close>

inductive spec_scan :: "jsstring \<Rightarrow> nat \<Rightarrow> regex_match list \<Rightarrow> bool" for v where
  scan_done: "(\<And>j b k. i \<le> j \<Longrightarrow> \<not> spec_match v j b k) \<Longrightarrow> spec_scan v i []"
| scan_step: "i \<le> j \<Longrightarrow> (\<And>j' b' k'. i \<le> j' \<Longrightarrow> j' < j \<Longrightarrow> \<not> spec_match v j' b' k') \<Longrightarrow>
     spec_match v j b k \<Longrightarrow> spec_scan v (j + k + 2 * (if b then 2 else 1)) ms \<Longrightarrow>
     spec_scan v i (mk_match v j b k # ms)"

lemma spec_block_drop:
  "spec_block v i k \<longleftrightarrow>
     1 \<le> k \<and> take 2 (drop i v) = [dollar, dollar] \<and>
     take 2 (drop k (drop 2 (drop i v))) = [dollar, dollar]"
proof -
  have "i + 4 + k - (i + 2 + k) = 2" by simp
  moreover have "k + (2 + i) = i + 2 + k" by simp
  ultimately show ?thesis by (simp add: spec_block_def js_slice_def add.commute)
qed

lemma spec_inline_drop:
  "spec_inline v i k \<longleftrightarrow>
     1 \<le> k \<and> take 1 (drop i v) = [dollar] \<and>
     take 1 (drop k (drop 1 (drop i v))) = [dollar] \<and>
     (\<forall>c \<in> set (take k (drop 1 (drop i v))). c \<noteq> dollar \<and> c \<noteq> newline)"
proof -
  have "i + 2 + k - (i + 1 + k) = 1" by simp
  moreover have "k + (1 + i) = i + 1 + k" by simp
  moreover have "1 + i = i + 1" by simp
  ultimately show ?thesis by (simp add: spec_inline_def js_slice_def add.commute)
qed

lemma take1_eq_iff: "take 1 xs = [c] \<longleftrightarrow> xs \<noteq> [] \<and> hd xs = c"
  by (cases xs) auto

lemma spec_inline_unique:
  assumes "spec_inline v i k" "j < k"
  shows "\<not> spec_inline v i j"
proof
  define u where "u = drop 1 (drop i v)"
  assume "spec_inline v i j"
  then have "take 1 (drop j u) = [dollar]" unfolding spec_inline_drop u_def by blast
  then have "drop j u \<noteq> [] \<and> hd (drop j u) = dollar"
    using take1_eq_iff[of "drop j u" dollar] by blast
  then have ne: "drop j u \<noteq> []" and hd: "hd (drop j u) = dollar"
    by blast+
  from ne have jl: "j < length u" by simp
  with hd have uj: "u ! j = dollar" by (simp add: hd_drop_conv_nth)
  from jl assms(2) have "j < length (take k u)" by simp
  then have "take k u ! j \<in> set (take k u)" by (rule nth_mem)
  moreover have "take k u ! j = u ! j" using assms(2) by simp
  ultimately have "dollar \<in> set (take k u)" using uj by simp
  moreover from assms(1) have "\<forall>c \<in> set (take k u). c \<noteq> dollar \<and> c \<noteq> newline"
    unfolding spec_inline_drop u_def by blast
  ultimately show False by blast
qed

lemma match_at_spec: "match_at (drop i v) = Some (b, k) \<longleftrightarrow> spec_match v i b k"
proof -
  define s where "s = drop i v"
  define t where "t = drop 2 s"
  define u where "u = drop 1 s"
  have blk: "spec_block v i j \<longleftrightarrow>
      1 \<le> j \<and> take 2 s = [dollar, dollar] \<and> take 2 (drop j t) = [dollar, dollar]" for j
    unfolding s_def t_def by (rule spec_block_drop)
  have inl: "spec_inline v i j \<longleftrightarrow>
      1 \<le> j \<and> take 1 s = [dollar] \<and> take 1 (drop j u) = [dollar] \<and>
      (\<forall>c \<in> set (take j u). c \<noteq> dollar \<and> c \<noteq> newline)" for j
    unfolding s_def u_def by (rule spec_inline_drop)
  show ?thesis
  proof (cases b)
    case True
    have "match_at s = Some (True, k) \<longleftrightarrow> take 2 s = [dollar, dollar] \<and> block_body t = Some k"
      unfolding t_def by (rule match_at_block_iff)
    also have "\<dots> \<longleftrightarrow> spec_block v i k \<and> (\<forall>j<k. \<not> spec_block v i j)"
      unfolding blk block_body_iff[of t k] by blast
    finally show ?thesis using True unfolding s_def spec_match_def by simp
  next
    case False
    have "match_at s = Some (False, k) \<longleftrightarrow>
        (take 2 s = [dollar, dollar] \<longrightarrow> block_body t = None) \<and>
        take 1 s = [dollar] \<and> inline_body u = Some k"
      unfolding t_def u_def by (rule match_at_inline_iff)
    also have "\<dots> \<longleftrightarrow> (\<forall>j. \<not> spec_block v i j) \<and> spec_inline v i k"
      unfolding blk inl block_body_None_iff[of t] inline_body_iff[of u k] by blast
    also have "\<dots> \<longleftrightarrow> (\<forall>j. \<not> spec_block v i j) \<and> spec_inline v i k \<and>
        (\<forall>j<k. \<not> spec_inline v i j)"
      using spec_inline_unique by blast
    finally show ?thesis using False unfolding s_def spec_match_def by simp
  qed
qed

lemma mk_match_sel [simp]:
  "m_index (mk_match v i b k) = i"
  "m_block (mk_match v i b k) = b"
  "m_content (mk_match v i b k) = js_slice v (i + (if b then 2 else 1)) (i + (if b then 2 else 1) + k)"
  "m_text (mk_match v i b k) = js_slice v i (i + k + 2 * (if b then 2 else 1))"
  "m_end (mk_match v i b k) = i + k + 2 * (if b then 2 else 1)"
  by (simp_all add: mk_match_def Let_def)

lemma regex_exec_first:
  assumes "i \<le> j" "\<And>j'. i \<le> j' \<Longrightarrow> j' < j \<Longrightarrow> match_at (drop j' v) = None"
    and "match_at (drop j v) = Some (b, k)"
  shows "regex_exec v i = Some (mk_match v j b k)"
proof (cases "regex_exec v i")
  case None
  from regex_exec_None[OF None assms(1)] assms(3) show ?thesis by simp
next
  case (Some m)
  from regex_exec_Some[OF Some] obtain j0 b0 k0 where m: "i \<le> j0"
    "match_at (drop j0 v) = Some (b0, k0)" "m = mk_match v j0 b0 k0"
    "\<forall>j'. i \<le> j' \<and> j' < j0 \<longrightarrow> match_at (drop j' v) = None" by blast
  have "\<not> j0 < j" using assms(2)[of j0] m(1,2) by auto
  moreover have "\<not> j < j0" using m(4) assms(1,3) by auto
  ultimately have "j0 = j" by simp
  with m(2,3) assms(3) Some show ?thesis by simp
qed

lemma matches_from_spec_scan: "spec_scan v i (matches_from v i)"
proof (induction v i rule: matches_from.induct)
  case (1 v i)
  show ?case
  proof (cases "regex_exec v i")
    case None
    then have "matches_from v i = []" by (subst matches_from.simps) simp
    moreover have "\<not> spec_match v j b k" if "i \<le> j" for j b k
      using regex_exec_None[OF None that] by (simp flip: match_at_spec)
    ultimately show ?thesis by (simp add: scan_done)
  next
    case (Some m)
    from regex_exec_Some[OF Some] obtain j b k where m: "i \<le> j"
      "match_at (drop j v) = Some (b, k)" "m = mk_match v j b k"
      "\<forall>j'. i \<le> j' \<and> j' < j \<longrightarrow> match_at (drop j' v) = None" by blast
    have e: "m_end m = j + k + 2 * (if b then 2 else 1)"
      by (simp add: m(3) mk_match_def)
    have ms: "matches_from v i = m # matches_from v (m_end m)"
      using Some by (subst matches_from.simps) simp
    have "spec_scan v (j + k + 2 * (if b then 2 else 1)) (matches_from v (m_end m))"
      using "1.IH"[OF Some] e by simp
    moreover have "spec_match v j b k" using m(2) by (simp add: match_at_spec)
    moreover have "\<not> spec_match v j' b' k'" if "i \<le> j'" "j' < j" for j' b' k'
      using m(4) that by (simp flip: match_at_spec)
    ultimately have "spec_scan v i (mk_match v j b k # matches_from v (m_end m))"
      using m(1) by (intro scan_step)
    with ms m(3) show ?thesis by simp
  qed
qed

lemma spec_scan_matches_from: "spec_scan v i ms \<Longrightarrow> ms = matches_from v i"
proof (induction rule: spec_scan.induct)
  case (scan_done i)
  have "regex_exec v i = None"
  proof (cases "regex_exec v i")
    case None then show ?thesis .
  next
    case (Some m)
    from regex_exec_Some[OF Some] obtain j b k where "i \<le> j"
      "match_at (drop j v) = Some (b, k)" by blast
    with scan_done show ?thesis by (simp add: match_at_spec)
  qed
  then show ?case by (subst matches_from.simps) simp
next
  case (scan_step i j b k ms)
  have "match_at (drop j' v) = None" if "i \<le> j'" "j' < j" for j'
  proof (cases "match_at (drop j' v)")
    case None then show ?thesis .
  next
    case (Some bk)
    then have "spec_match v j' (fst bk) (snd bk)" by (simp flip: match_at_spec)
    with scan_step(2)[OF that] show ?thesis by simp
  qed
  moreover have "match_at (drop j v) = Some (b, k)"
    using scan_step(3) by (simp add: match_at_spec)
  ultimately have r: "regex_exec v i = Some (mk_match v j b k)"
    using scan_step(1) by (intro regex_exec_first)
  have e: "m_end (mk_match v j b k) = j + k + 2 * (if b then 2 else 1)"
    by (simp add: mk_match_def)
  show ?case using r e scan_step.IH by (subst matches_from.simps) simp
qed

text \<open>The fragment, put together from the matches of the scan.\<close>

fun assemble :: "renderer \<Rightarrow> jsstring \<Rightarrow> nat \<Rightarrow> regex_match list \<Rightarrow> node list" where
  "assemble render v p [] = (if p < length v then [TextNode (js_slice v p (length v))] else [])"
| "assemble render v p (m # ms) =
     (if p < m_index m then [TextNode (js_slice v p (m_index m))] else [])
     @ [match_node render m] @ assemble render v (m_end m) ms"

lemma fragment_from_assemble:
  "fragment_from render v i = assemble render v i (matches_from v i)"
proof (induction render v i rule: fragment_from.induct)
  case (1 render v i)
  show ?case
  proof (cases "regex_exec v i")
    case None
    then show ?thesis
      by (subst fragment_from.simps, subst matches_from.simps) simp
  next
    case (Some m)
    with "1.IH"[OF Some] show ?thesis
      by (subst fragment_from.simps, subst matches_from.simps) simp
  qed
qed

lemma matches_from_member:
  "m \<in> set (matches_from v i) \<Longrightarrow> \<exists>j b k. i \<le> j \<and> m = mk_match v j b k \<and> spec_match v j b k"
proof (induction v i rule: matches_from.induct)
  case (1 v i)
  show ?case
  proof (cases "regex_exec v i")
    case None
    with "1.prems" show ?thesis by (subst (asm) matches_from.simps) simp
  next
    case (Some m0)
    from "1.prems" Some have "m = m0 \<or> m \<in> set (matches_from v (m_end m0))"
      by (subst (asm) matches_from.simps) simp
    then show ?thesis
    proof
      assume "m = m0"
      with regex_exec_Some[OF Some] show ?thesis by (auto simp: match_at_spec)
    next
      assume "m \<in> set (matches_from v (m_end m0))"
      from "1.IH"[OF Some this] obtain j b k where
        "m_end m0 \<le> j" "m = mk_match v j b k" "spec_match v j b k" by blast
      moreover have "i \<le> m_end m0" using regex_exec_bounds[OF Some] by simp
      ultimately show ?thesis by (intro exI[of _ j] exI[of _ b] exI[of _ k]) simp
    qed
  qed
qed

lemma inline_match_no_newline:
  assumes "m \<in> set (matches_from v i)" "\<not> m_block m"
  shows "newline \<notin> set (m_content m) \<and> dollar \<notin> set (m_content m)"
proof -
  from matches_from_member[OF assms(1)] obtain j b k where
    m: "m = mk_match v j b k" "spec_match v j b k" by blast
  from assms(2) m(1) have b: "\<not> b" by simp
  with m(2) have "spec_inline v j k" by (simp add: spec_match_def)
  then have "\<forall>c \<in> set (js_slice v (j + 1) (j + 1 + k)). c \<noteq> dollar \<and> c \<noteq> newline"
    by (simp add: spec_inline_def)
  moreover have "m_content m = js_slice v (j + 1) (j + 1 + k)" using m(1) b by simp
  ultimately show ?thesis by auto
qed

lemma match_node_cases:
  "match_node render m =
     (if trim (m_content m) = [] then TextNode (m_text m)
      else createMathToken render (trim (m_content m)) (m_block m))"
  by (simp add: match_node_def Let_def)

lemma scan_example_block:
  "matches_from (js ''$$\<newline>1+1\<newline>$$'') 0 =
     [\<lparr>m_index = 0, m_block = True, m_content = js ''\<newline>1+1\<newline>'',
       m_text = js ''$$\<newline>1+1\<newline>$$'', m_end = 9\<rparr>]"
  by code_simp

lemma fragment_example_block:
  "mathFragment render (js ''$$\<newline>1+1\<newline>$$'') = [createMathToken render (js ''1+1'') True]"
  by code_simp

lemma scan_example_blank:
  "matches_from (js ''$ $'') 0 =
     [\<lparr>m_index = 0, m_block = False, m_content = js '' '', m_text = js ''$ $'', m_end = 3\<rparr>]"
  by code_simp

lemma fragment_example_blank: "mathFragment render (js ''$ $'') = [TextNode (js ''$ $'')]"
  by code_simp

lemma scan_example_open: "matches_from (js ''$x'') 0 = []"
  by code_simp

lemma fragment_example_open: "mathFragment render (js ''$x'') = [TextNode (js ''$x'')]"
  by code_simp

lemma scan_example_mixed:
  "matches_from (js ''a$x$'') 0 =
     [\<lparr>m_index = 1, m_block = False, m_content = js ''x'', m_text = js ''$x$'', m_end = 4\<rparr>]"
  by code_simp

text \<open>
  C1. On every text value the scan loop sees exactly the matches of the rule in the
  specification's words (\<open>spec_scan\<close>: leftmost position first, block run before inline
  run at a position, shortest run, the next scan from the end of the match, so matches do
  not overlap); the fragment is put together from these matches; an inline match holds no
  newline; a match whose trimmed expression is empty stays text, any other becomes a
  widget with the trimmed expression. The three inputs of the specification behave as it
  says; the block match of the first holds newlines.
\<close>

theorem scanner_exact:
  "(\<forall>ms. spec_scan v 0 ms \<longleftrightarrow> ms = matches_from v 0) \<and>
   mathFragment render v = assemble render v 0 (matches_from v 0) \<and>
   (\<forall>m \<in> set (matches_from v 0).
      (\<not> m_block m \<longrightarrow> newline \<notin> set (m_content m)) \<and>
      match_node render m =
        (if trim (m_content m) = [] then TextNode (m_text m)
         else createMathToken render (trim (m_content m)) (m_block m))) \<and>
   matches_from (js ''$$\<newline>1+1\<newline>$$'') 0 =
     [\<lparr>m_index = 0, m_block = True, m_content = js ''\<newline>1+1\<newline>'',
       m_text = js ''$$\<newline>1+1\<newline>$$'', m_end = 9\<rparr>] \<and>
   mathFragment render (js ''$$\<newline>1+1\<newline>$$'') = [createMathToken render (js ''1+1'') True] \<and>
   mathFragment render (js ''$ $'') = [TextNode (js ''$ $'')] \<and>
   matches_from (js ''$x'') 0 = [] \<and>
   mathFragment render (js ''$x'') = [TextNode (js ''$x'')]"
proof -
  have a: "\<forall>ms. spec_scan v 0 ms \<longleftrightarrow> ms = matches_from v 0"
    using spec_scan_matches_from matches_from_spec_scan by blast
  have b: "mathFragment render v = assemble render v 0 (matches_from v 0)"
    unfolding mathFragment_def by (rule fragment_from_assemble)
  have c: "\<forall>m \<in> set (matches_from v 0).
      (\<not> m_block m \<longrightarrow> newline \<notin> set (m_content m)) \<and>
      match_node render m =
        (if trim (m_content m) = [] then TextNode (m_text m)
         else createMathToken render (trim (m_content m)) (m_block m))"
    using inline_match_no_newline match_node_cases by blast
  show ?thesis
    using a b c scan_example_block fragment_example_block fragment_example_blank
      scan_example_open fragment_example_open
    by (intro conjI)
qed

theorem scanner_exact_witness:
  "spec_scan (js ''a$x$'') 0
     [\<lparr>m_index = 1, m_block = False, m_content = js ''x'', m_text = js ''$x$'', m_end = 4\<rparr>] \<and>
   newline \<notin> set (js ''x'') \<and>
   mathFragment (\<lambda>t d. None) (js ''a$x$'') =
     [TextNode (js ''a''), createMathToken (\<lambda>t d. None) (js ''x'') False]"
proof -
  let ?v = "js ''a$x$''"
  let ?m = "\<lparr>m_index = 1, m_block = False, m_content = js ''x'', m_text = js ''$x$'', m_end = 4\<rparr>"
  note t = scanner_exact[of ?v "\<lambda>t d. None"]
  from t have "spec_scan ?v 0 [?m] \<longleftrightarrow> [?m] = matches_from ?v 0" by blast
  then have 1: "spec_scan ?v 0 [?m]" by (simp add: scan_example_mixed)
  have "?m \<in> set (matches_from ?v 0)" by (simp add: scan_example_mixed)
  with t have "\<not> m_block ?m \<longrightarrow> newline \<notin> set (m_content ?m)" by blast
  then have 2: "newline \<notin> set (js ''x'')" by simp
  from t have "mathFragment (\<lambda>t d. None) ?v = assemble (\<lambda>t d. None) ?v 0 (matches_from ?v 0)"
    by blast
  also have "\<dots> = [TextNode (js ''a''), createMathToken (\<lambda>t d. None) (js ''x'') False]"
    unfolding scan_example_mixed by code_simp
  finally show ?thesis using 1 2 by simp
qed

lemma js_false_ne_true [simp]: "js ''false'' \<noteq> js ''true''"
  by (simp add: js_def)

lemma mathRawForToken_createMathToken:
  "mathRawForToken (createMathToken render t d) =
     \<lparr>tex = t, display = d, delimiterSize = (if d then 2 else 1), raw = delimited t d\<rparr>"
  by (simp add: mathRawForToken_def createMathToken_def Let_def)

lemma createMathToken_inject:
  "createMathToken render t d = createMathToken render t' d' \<longleftrightarrow> t = t' \<and> d = d'"
proof
  assume "createMathToken render t d = createMathToken render t' d'"
  then have "mathRawForToken (createMathToken render t d) =
             mathRawForToken (createMathToken render t' d')" by simp
  then show "t = t' \<and> d = d'" unfolding mathRawForToken_createMathToken by simp
qed simp

lemma createMathToken_not_text [simp]:
  "createMathToken render t d \<noteq> TextNode s" "TextNode s \<noteq> createMathToken render t d"
  by (simp_all add: createMathToken_def)

lemma length_delimited: "length (delimited t d) = length t + 2 * (if d then 2 else 1)"
  by (simp add: delimited_def)

lemma dropWhile_same_length: "length (dropWhile P xs) = length xs \<Longrightarrow> dropWhile P xs = xs"
proof -
  assume a: "length (dropWhile P xs) = length xs"
  have "length (takeWhile P xs) + length (dropWhile P xs) = length xs"
    by (metis length_append takeWhile_dropWhile_id)
  with a have "takeWhile P xs = []" by simp
  then show ?thesis by (metis append_Nil takeWhile_dropWhile_id)
qed

lemma length_trim_le: "length (trim s) \<le> length s"
proof -
  have "length (trim s) \<le> length (dropWhile isTrimSpace s)"
    unfolding trim_def using length_dropWhile_le[of isTrimSpace "rev (dropWhile isTrimSpace s)"]
    by simp
  also have "\<dots> \<le> length s" by (rule length_dropWhile_le)
  finally show ?thesis .
qed

lemma trim_same_length: "length (trim s) = length s \<Longrightarrow> trim s = s"
proof -
  assume a: "length (trim s) = length s"
  let ?d = "dropWhile isTrimSpace s"
  have 1: "length (trim s) \<le> length ?d"
    unfolding trim_def using length_dropWhile_le[of isTrimSpace "rev ?d"] by simp
  have 2: "length ?d \<le> length s" by (rule length_dropWhile_le)
  from a 1 2 have "length ?d = length s" by simp
  then have d: "?d = s" by (rule dropWhile_same_length)
  from a have "length (dropWhile isTrimSpace (rev s)) = length (rev s)"
    unfolding trim_def d by simp
  then have "dropWhile isTrimSpace (rev s) = rev s" by (rule dropWhile_same_length)
  then show ?thesis unfolding trim_def d by simp
qed

lemma length_trim_less: "trim s \<noteq> s \<Longrightarrow> length (trim s) < length s"
  using length_trim_le[of s] trim_same_length[of s] by (cases "length (trim s) = length s") auto

lemma spec_match_text:
  assumes "spec_match v j b k"
  shows "js_slice v j (j + k + 2 * (if b then 2 else 1)) =
         delimited (js_slice v (j + (if b then 2 else 1)) (j + (if b then 2 else 1) + k)) b"
proof (cases b)
  case True
  define s where "s = drop j v"
  from True assms have "spec_block v j k" by (simp add: spec_match_def)
  then have o: "take 2 s = [dollar, dollar]"
    and c: "take 2 (drop k (drop 2 s)) = [dollar, dollar]"
    unfolding spec_block_drop s_def by blast+
  have "take (2 + (k + 2)) s = take 2 s @ take (k + 2) (drop 2 s)" by (rule take_add)
  also have "take (k + 2) (drop 2 s) = take k (drop 2 s) @ take 2 (drop k (drop 2 s))"
    by (rule take_add)
  finally have t: "take (2 + (k + 2)) s = [dollar, dollar] @ take k (drop 2 s) @ [dollar, dollar]"
    unfolding o c .
  have e: "j + k + 2 * 2 - j = 2 + (k + 2)" by simp
  have "js_slice v j (j + k + 2 * 2) = take (2 + (k + 2)) s"
    unfolding js_slice_def e s_def by (rule refl)
  moreover have "js_slice v (j + 2) (j + 2 + k) = take k (drop 2 s)"
    by (simp add: js_slice_def s_def add.commute)
  ultimately show ?thesis using True t by (simp add: delimited_def)
next
  case False
  define s where "s = drop j v"
  from False assms have "spec_inline v j k" by (simp add: spec_match_def)
  then have o: "take 1 s = [dollar]"
    and c: "take 1 (drop k (drop 1 s)) = [dollar]"
    unfolding spec_inline_drop s_def by blast+
  have "take (1 + (k + 1)) s = take 1 s @ take (k + 1) (drop 1 s)" by (rule take_add)
  also have "take (k + 1) (drop 1 s) = take k (drop 1 s) @ take 1 (drop k (drop 1 s))"
    by (rule take_add)
  finally have t: "take (1 + (k + 1)) s = [dollar] @ take k (drop 1 s) @ [dollar]"
    unfolding o c .
  have e: "j + k + 2 * 1 - j = 1 + (k + 1)" by simp
  have "js_slice v j (j + k + 2 * 1) = take (1 + (k + 1)) s"
    unfolding js_slice_def e s_def by (rule refl)
  moreover have "js_slice v (j + 1) (j + 1 + k) = take k (drop 1 s)"
    by (simp add: js_slice_def s_def add.commute)
  ultimately show ?thesis using False t by (simp add: delimited_def)
qed

lemma match_text_delimited:
  assumes "m \<in> set (matches_from v i)"
  shows "m_text m = delimited (m_content m) (m_block m)"
proof -
  from matches_from_member[OF assms] obtain j b k where
    "m = mk_match v j b k" "spec_match v j b k" by blast
  with spec_match_text[of v j b k] show ?thesis by simp
qed

lemma fragment_example_spaced:
  "mathFragment render (js ''$ a $'') = [createMathToken render (js ''a'') False]"
  by code_simp

lemma delimited_example: "delimited (js ''a'') False = js ''$a$''"
  by code_simp

text \<open>
  C10. A converted match gives a widget that stores the trimmed expression; its raw form
  is the delimiters around the trimmed expression, while the matched text is the
  delimiters around the untrimmed one, so the raw form is shorter than the matched text
  as soon as the expression has whitespace at an end. \<open>$ a $\<close> becomes a widget whose
  raw form is \<open>$a$\<close>.
\<close>

theorem convert_collapse_trims:
  "(\<forall>m \<in> set (matches_from v 0). trim (m_content m) \<noteq> [] \<longrightarrow>
      tex (mathRawForToken (match_node render m)) = trim (m_content m) \<and>
      display (mathRawForToken (match_node render m)) = m_block m \<and>
      raw (mathRawForToken (match_node render m)) = delimited (trim (m_content m)) (m_block m) \<and>
      m_text m = delimited (m_content m) (m_block m) \<and>
      (trim (m_content m) \<noteq> m_content m \<longrightarrow>
         length (raw (mathRawForToken (match_node render m))) < length (m_text m) \<and>
         raw (mathRawForToken (match_node render m)) \<noteq> m_text m)) \<and>
   mathFragment render (js ''$ a $'') = [createMathToken render (js ''a'') False] \<and>
   raw (mathRawForToken (createMathToken render (js ''a'') False)) = js ''$a$''"
proof -
  have "tex (mathRawForToken (match_node render m)) = trim (m_content m) \<and>
      display (mathRawForToken (match_node render m)) = m_block m \<and>
      raw (mathRawForToken (match_node render m)) = delimited (trim (m_content m)) (m_block m) \<and>
      m_text m = delimited (m_content m) (m_block m) \<and>
      (trim (m_content m) \<noteq> m_content m \<longrightarrow>
         length (raw (mathRawForToken (match_node render m))) < length (m_text m) \<and>
         raw (mathRawForToken (match_node render m)) \<noteq> m_text m)"
    if m: "m \<in> set (matches_from v 0)" and ne: "trim (m_content m) \<noteq> []" for m
  proof -
    have n: "match_node render m = createMathToken render (trim (m_content m)) (m_block m)"
      using ne by (simp add: match_node_cases)
    have t: "m_text m = delimited (m_content m) (m_block m)"
      by (rule match_text_delimited[OF m])
    have r: "raw (mathRawForToken (match_node render m)) =
             delimited (trim (m_content m)) (m_block m)"
      unfolding n mathRawForToken_createMathToken by simp
    have l: "length (raw (mathRawForToken (match_node render m))) < length (m_text m)"
      if "trim (m_content m) \<noteq> m_content m"
      unfolding r t length_delimited using length_trim_less[OF that] by simp
    show ?thesis using t r l unfolding n mathRawForToken_createMathToken by auto
  qed
  moreover have "raw (mathRawForToken (createMathToken render (js ''a'') False)) = js ''$a$''"
    unfolding mathRawForToken_createMathToken by (simp add: delimited_example)
  ultimately show ?thesis using fragment_example_spaced by blast
qed

lemma scan_example_spaced:
  "matches_from (js ''$ a $'') 0 =
     [\<lparr>m_index = 0, m_block = False, m_content = js '' a '', m_text = js ''$ a $'', m_end = 5\<rparr>]"
  by code_simp

lemma trim_example_spaced: "trim (js '' a '') = js ''a''"
  by code_simp

theorem convert_collapse_trims_witness:
  "raw (mathRawForToken (match_node (\<lambda>t d. None)
      \<lparr>m_index = 0, m_block = False, m_content = js '' a '', m_text = js ''$ a $'', m_end = 5\<rparr>))
    = js ''$a$'' \<and>
   length (js ''$a$'') < length (js ''$ a $'')"
proof -
  let ?m = "\<lparr>m_index = 0, m_block = False, m_content = js '' a '', m_text = js ''$ a $'', m_end = 5\<rparr>"
  have m: "?m \<in> set (matches_from (js ''$ a $'') 0)" by (simp add: scan_example_spaced)
  have "js ''a'' \<noteq> []" "js ''a'' \<noteq> js '' a ''" by (simp_all add: js_def)
  then have ne: "trim (m_content ?m) \<noteq> []" and nt: "trim (m_content ?m) \<noteq> m_content ?m"
    by (simp_all add: trim_example_spaced)
  from convert_collapse_trims[of "js ''$ a $''" "\<lambda>t d. None"] m ne nt
  have "raw (mathRawForToken (match_node (\<lambda>t d. None) ?m)) = delimited (trim (m_content ?m)) (m_block ?m)
    \<and> length (raw (mathRawForToken (match_node (\<lambda>t d. None) ?m))) < length (m_text ?m)"
    by blast
  then have "raw (mathRawForToken (match_node (\<lambda>t d. None) ?m)) = js ''$a$''"
    by (simp add: trim_example_spaced delimited_example)
  moreover have "length (js ''$a$'') < length (js ''$ a $'')" by (simp add: js_def)
  ultimately show ?thesis by blast
qed

text \<open>
  The expressions a collapse and a new pass give back unchanged: not empty, nothing for
  \<open>trim\<close> to strip, and, inline, no \<open>$\<close> and no newline inside, or, display, no
  \<open>$$\<close> that starts inside the expression after its first code unit (the closing
  delimiter may complete it).
\<close>

definition wellFormedTex :: "jsstring \<Rightarrow> bool \<Rightarrow> bool" where
  "wellFormedTex t d \<longleftrightarrow>
     t \<noteq> [] \<and> trim t = t \<and>
     (if d then (\<forall>j \<in> {1..<length t}. take 2 (drop j (t @ [dollar, dollar])) \<noteq> [dollar, dollar])
      else dollar \<notin> set t \<and> newline \<notin> set t)"

lemma regex_exec_at_end: "regex_exec v (length v) = None"
proof -
  have "regex_exec v (Suc (length v)) = None" by (subst regex_exec.simps) simp
  then show ?thesis by (subst regex_exec.simps) simp
qed

lemma fragment_from_at_end: "fragment_from render v (length v) = []"
  by (subst fragment_from.simps) (simp add: regex_exec_at_end)

lemma fragment_from_Nil:
  assumes "fragment_from render v i = []" "i \<le> length v"
  shows "i = length v"
proof (cases "regex_exec v i")
  case None
  with assms(1) have "\<not> i < length v"
    by (subst (asm) fragment_from.simps) (simp split: if_splits)
  with assms(2) show ?thesis by simp
next
  case (Some m)
  with assms(1) show ?thesis by (subst (asm) fragment_from.simps) simp
qed

lemma delimited_content:
  "js_slice (delimited t d) (if d then 2 else 1) ((if d then 2 else 1) + length t) = t"
  by (simp add: delimited_def js_slice_def)

lemma dollar_in_delimited: "dollar \<in> set (delimited t d)"
  by (simp add: delimited_def)

lemma roundtrip_if_match:
  assumes m: "match_at (delimited t d) = Some (d, length t)" and t: "t \<noteq> []" "trim t = t"
  shows "runMathPassOnText render (delimited t d) = [createMathToken render t d]"
proof -
  let ?v = "delimited t d"
  let ?m = "mk_match ?v 0 d (length t)"
  have r: "regex_exec ?v 0 = Some ?m"
    using m by (intro regex_exec_first) simp_all
  have c: "m_content ?m = t" using delimited_content[of t d] by simp
  have e: "m_end ?m = length ?v" by (simp add: length_delimited)
  have n: "match_node render ?m = createMathToken render t d"
    unfolding match_node_cases c using t by simp
  have "fragment_from render ?v 0 = [match_node render ?m] @ fragment_from render ?v (m_end ?m)"
    using r by (subst fragment_from.simps) simp
  then have "mathFragment render ?v = [createMathToken render t d]"
    unfolding mathFragment_def n e fragment_from_at_end by simp
  with r show ?thesis by (simp add: runMathPassOnText_def dollar_in_delimited)
qed

lemma roundtrip_only_if_match:
  assumes "runMathPassOnText render (delimited t d) = [createMathToken render t d]"
  shows "match_at (delimited t d) = Some (d, length t) \<and> t \<noteq> [] \<and> trim t = t"
proof -
  let ?v = "delimited t d"
  let ?tok = "createMathToken render t d"
  from assms have f: "fragment_from render ?v 0 = [?tok]" and ex: "regex_exec ?v 0 \<noteq> None"
    by (auto simp: runMathPassOnText_def mathFragment_def split: if_splits)
  from ex obtain m where r: "regex_exec ?v 0 = Some m" by blast
  from f r have l: "(if 0 < m_index m then [TextNode (js_slice ?v 0 (m_index m))] else [])
      @ [match_node render m] @ fragment_from render ?v (m_end m) = [?tok]"
    by (subst (asm) fragment_from.simps) simp
  have i0: "m_index m = 0"
  proof (rule ccontr)
    assume "m_index m \<noteq> 0"
    with l have "TextNode (js_slice ?v 0 (m_index m)) = ?tok" by simp
    then show False by simp
  qed
  with l have n: "match_node render m = ?tok" and rest: "fragment_from render ?v (m_end m) = []"
    by simp_all
  from regex_exec_bounds[OF r] have "m_end m \<le> length ?v" by simp
  with rest have e: "m_end m = length ?v" by (rule fragment_from_Nil)
  from regex_exec_Some[OF r] obtain j b k where
    jbk: "match_at (drop j ?v) = Some (b, k)" "m = mk_match ?v j b k" by blast
  with i0 have j: "j = 0" by simp
  from n have ne: "trim (m_content m) \<noteq> []"
    and tk: "createMathToken render (trim (m_content m)) (m_block m) = ?tok"
    unfolding match_node_cases by (auto split: if_splits)
  from tk have tr: "trim (m_content m) = t" and b: "m_block m = d"
    unfolding createMathToken_inject by simp_all
  from b jbk(2) have bd: "b = d" by simp
  from e jbk(2) j bd have k: "k = length t" by (simp add: length_delimited)
  have "m_content m = t" using jbk(2) j bd k delimited_content[of t d] by simp
  with tr ne have "trim t = t" "t \<noteq> []" by auto
  with jbk(1) j bd k show ?thesis by simp
qed

lemma match_at_delimited_inline:
  assumes "t \<noteq> []"
  shows "match_at (delimited t False) = Some (False, length t) \<longleftrightarrow>
         dollar \<notin> set t \<and> newline \<notin> set t"
proof -
  obtain c cs where t: "t = c # cs" using assms by (cases t) auto
  have v: "delimited t False = dollar # t @ [dollar]" by (simp add: delimited_def)
  have i: "inline_body (t @ [dollar]) = Some (length t) \<longleftrightarrow>
           (\<forall>x \<in> set t. x \<noteq> dollar \<and> x \<noteq> newline)"
    unfolding inline_body_iff using assms by (cases t) auto
  have "take 2 (delimited t False) = [dollar, dollar] \<longleftrightarrow> c = dollar"
    by (simp add: delimited_def t)
  moreover have "take 1 (delimited t False) = [dollar]" "drop 1 (delimited t False) = t @ [dollar]"
    unfolding v by simp_all
  ultimately have "match_at (delimited t False) = Some (False, length t) \<longleftrightarrow>
      (c = dollar \<longrightarrow> block_body (drop 2 (delimited t False)) = None) \<and>
      (\<forall>x \<in> set t. x \<noteq> dollar \<and> x \<noteq> newline)"
    unfolding match_at_inline_iff by (simp add: i)
  also have "\<dots> \<longleftrightarrow> (\<forall>x \<in> set t. x \<noteq> dollar \<and> x \<noteq> newline)"
    unfolding t by auto
  finally show ?thesis by auto
qed

lemma match_at_delimited_block:
  assumes "t \<noteq> []"
  shows "match_at (delimited t True) = Some (True, length t) \<longleftrightarrow>
         (\<forall>j \<in> {1..<length t}. take 2 (drop j (t @ [dollar, dollar])) \<noteq> [dollar, dollar])"
proof -
  have v: "delimited t True = dollar # dollar # t @ [dollar, dollar]" by (simp add: delimited_def)
  have "take 2 (delimited t True) = [dollar, dollar]"
    "drop 2 (delimited t True) = t @ [dollar, dollar]"
    unfolding v by simp_all
  then have "match_at (delimited t True) = Some (True, length t) \<longleftrightarrow>
      block_body (t @ [dollar, dollar]) = Some (length t)"
    unfolding match_at_block_iff by simp
  also have "\<dots> \<longleftrightarrow> (\<forall>j. 1 \<le> j \<and> j < length t \<longrightarrow>
      take 2 (drop j (t @ [dollar, dollar])) \<noteq> [dollar, dollar])"
    unfolding block_body_iff using assms by (cases t) auto
  finally show ?thesis by auto
qed

lemma roundtrip_iff:
  "runMathPassOnText render (delimited t d) = [createMathToken render t d] \<longleftrightarrow> wellFormedTex t d"
proof (cases "t = []")
  case True
  then show ?thesis using roundtrip_only_if_match[of render t d] by (auto simp: wellFormedTex_def)
next
  case False
  have "match_at (delimited t d) = Some (d, length t) \<longleftrightarrow>
      (if d then (\<forall>j \<in> {1..<length t}. take 2 (drop j (t @ [dollar, dollar])) \<noteq> [dollar, dollar])
       else dollar \<notin> set t \<and> newline \<notin> set t)"
    using match_at_delimited_inline[OF False] match_at_delimited_block[OF False]
    by (cases d) simp_all
  then show ?thesis
    using False roundtrip_only_if_match[of render t d] roundtrip_if_match[of t d render]
    unfolding wellFormedTex_def by blast
qed

lemma raw_mathRawForToken:
  "raw (mathRawForToken token) =
     delimited (tex (mathRawForToken token)) (display (mathRawForToken token))"
  by (simp add: mathRawForToken_def Let_def)

lemma fragment_example_dollar_tail:
  "mathFragment (\<lambda>t d. None) (js ''$$a$ $$'') = [createMathToken (\<lambda>t d. None) (js ''a$'') True]"
  by code_simp

lemma delimited_example_dollar_tail: "delimited (js ''a$'') True = js ''$$a$$$''"
  by code_simp

lemma pass_example_dollar_tail:
  "runMathPassOnText (\<lambda>t d. None) (js ''$$a$$$'') =
     [createMathToken (\<lambda>t d. None) (js ''a'') True, TextNode (js ''$'')]"
  by code_simp

text \<open>
  C2, as stated, fails: a widget the scanner itself makes from \<open>$$a$ $$\<close> has the
  expression \<open>a$\<close>; its raw form is \<open>$$a$$$\<close>, and a pass over that text gives a
  widget with the expression \<open>a\<close> followed by the text \<open>$\<close>.
\<close>

theorem collapse_rematerialize_counterexample:
  "mathFragment (\<lambda>t d. None) (js ''$$a$ $$'') = [createMathToken (\<lambda>t d. None) (js ''a$'') True] \<and>
   raw (mathRawForToken (createMathToken (\<lambda>t d. None) (js ''a$'') True)) = js ''$$a$$$'' \<and>
   runMathPassOnText (\<lambda>t d. None) (js ''$$a$$$'') =
     [createMathToken (\<lambda>t d. None) (js ''a'') True, TextNode (js ''$'')] \<and>
   tex (mathRawForToken (createMathToken (\<lambda>t d. None) (js ''a'') True)) \<noteq> js ''a$''"
proof -
  have "raw (mathRawForToken (createMathToken (\<lambda>t d. None) (js ''a$'') True)) = js ''$$a$$$''"
    unfolding mathRawForToken_createMathToken by (simp add: delimited_example_dollar_tail)
  moreover have "tex (mathRawForToken (createMathToken (\<lambda>t d. None) (js ''a'') True)) \<noteq> js ''a$''"
    unfolding mathRawForToken_createMathToken by (simp add: js_def)
  ultimately show ?thesis
    using fragment_example_dollar_tail pass_example_dollar_tail by blast
qed

text \<open>
  C2, amended. Collapsing a widget to its raw text and running a pass over that text
  gives back one widget with the same expression and display flag exactly when the
  expression is well formed (\<open>wellFormedTex\<close>): not empty, with nothing for \<open>trim\<close> to
  strip, and, inline, free of \<open>$\<close> and newline, or, display, with no \<open>$$\<close> starting
  inside it after its first code unit.
\<close>

theorem collapse_rematerialize_roundtrip:
  "(runMathPassOnText render (raw (mathRawForToken token)) =
      [createMathToken render (tex (mathRawForToken token)) (display (mathRawForToken token))]
    \<longleftrightarrow> wellFormedTex (tex (mathRawForToken token)) (display (mathRawForToken token))) \<and>
   tex (mathRawForToken
      (createMathToken render (tex (mathRawForToken token)) (display (mathRawForToken token))))
     = tex (mathRawForToken token) \<and>
   display (mathRawForToken
      (createMathToken render (tex (mathRawForToken token)) (display (mathRawForToken token))))
     = display (mathRawForToken token)"
  unfolding raw_mathRawForToken mathRawForToken_createMathToken
  using roundtrip_iff[of render "tex (mathRawForToken token)" "display (mathRawForToken token)"]
  by simp

lemma wellFormedTex_example: "wellFormedTex (js ''x^2'') False"
  by code_simp

theorem collapse_rematerialize_roundtrip_witness:
  "runMathPassOnText (\<lambda>t d. None) (js ''$x^2$'') = [createMathToken (\<lambda>t d. None) (js ''x^2'') False]"
proof -
  let ?tok = "createMathToken (\<lambda>t d. None) (js ''x^2'') False"
  have r: "mathRawForToken ?tok =
      \<lparr>tex = js ''x^2'', display = False, delimiterSize = 1, raw = delimited (js ''x^2'') False\<rparr>"
    unfolding mathRawForToken_createMathToken by simp
  have d: "delimited (js ''x^2'') False = js ''$x^2$''" by code_simp
  from collapse_rematerialize_roundtrip[of "\<lambda>t d. None" ?tok] wellFormedTex_example
  show ?thesis unfolding r by (simp add: d)
qed

section \<open>Carets next to widgets\<close>

lemma nodeAt_append:
  "nodeAt n (p @ q) = (case nodeAt n p of None \<Rightarrow> None | Some m \<Rightarrow> nodeAt m q)"
  by (induction p arbitrary: n) auto

lemma nodeAt_snoc:
  "nodeAt n (p @ [i]) =
     (case nodeAt n p of
        None \<Rightarrow> None
      | Some m \<Rightarrow> if i < length (childNodes m) then Some (childNodes m ! i) else None)"
  by (simp add: nodeAt_append split: option.splits)

lemma nodeAt_parent:
  assumes "c \<noteq> []" "nodeAt ed c = Some n"
  shows "\<exists>par. nodeAt ed (butlast c) = Some par \<and> last c < length (childNodes par) \<and>
               childNodes par ! last c = n"
proof -
  from assms(1) have c: "c = butlast c @ [last c]" by simp
  from assms(2) have "nodeAt ed (butlast c @ [last c]) = Some n" using c by simp
  then show ?thesis unfolding nodeAt_snoc by (auto split: option.splits if_splits)
qed

lemma firstKept_Some_iff:
  "firstKept skip ns = Some k \<longleftrightarrow>
     k < length ns \<and> \<not> skip (ns ! k) \<and> (\<forall>j<k. skip (ns ! j))"
proof (induction ns arbitrary: k)
  case Nil
  show ?case by simp
next
  case (Cons n ns)
  show ?case
  proof (cases "skip n")
    case False
    then show ?thesis by (cases k) auto
  next
    case True
    show ?thesis
    proof (cases k)
      case 0
      with True show ?thesis by auto
    next
      case (Suc k')
      have "(\<forall>j<Suc k'. skip ((n # ns) ! j)) \<longleftrightarrow> (\<forall>j<k'. skip (ns ! j))"
        using True by (auto simp: less_Suc_eq_0_disj)
      with True Suc Cons.IH[of k'] show ?thesis by auto
    qed
  qed
qed

lemma siblingIndex_Next_iff:
  "siblingIndex skip cs i Next = Some k \<longleftrightarrow>
     i < k \<and> k < length cs \<and> \<not> skip (cs ! k) \<and> (\<forall>j. i < j \<and> j < k \<longrightarrow> skip (cs ! j))"
proof
  assume "siblingIndex skip cs i Next = Some k"
  then obtain k' where k': "firstKept skip (drop (Suc i) cs) = Some k'" "k = i + 1 + k'"
    by (auto simp: siblingIndex_def)
  from k'(1) have a: "k' < length cs - Suc i" "\<not> skip (cs ! (Suc i + k'))"
    "\<forall>j<k'. skip (cs ! (Suc i + j))"
    unfolding firstKept_Some_iff by auto
  have "skip (cs ! j)" if "i < j" "j < k" for j
  proof -
    from that k'(2) have "j - Suc i < k'" by simp
    with a(3) have "skip (cs ! (Suc i + (j - Suc i)))" by blast
    with that(1) show ?thesis by simp
  qed
  with a k'(2) show "i < k \<and> k < length cs \<and> \<not> skip (cs ! k) \<and>
      (\<forall>j. i < j \<and> j < k \<longrightarrow> skip (cs ! j))" by auto
next
  assume r: "i < k \<and> k < length cs \<and> \<not> skip (cs ! k) \<and>
      (\<forall>j. i < j \<and> j < k \<longrightarrow> skip (cs ! j))"
  define k' where "k' = k - Suc i"
  from r have k: "k = Suc i + k'" by (simp add: k'_def)
  have "firstKept skip (drop (Suc i) cs) = Some k'"
    unfolding firstKept_Some_iff using r k by auto
  then show "siblingIndex skip cs i Next = Some k"
    using k by (simp add: siblingIndex_def)
qed

lemma siblingIndex_Prev_iff:
  assumes "i \<le> length cs"
  shows "siblingIndex skip cs i Prev = Some k \<longleftrightarrow>
     k < i \<and> \<not> skip (cs ! k) \<and> (\<forall>j. k < j \<and> j < i \<longrightarrow> skip (cs ! j))"
proof -
  have nth: "rev (take i cs) ! j = cs ! (i - 1 - j)" if "j < i" for j
    using that assms by (simp add: rev_nth)
  show ?thesis
  proof
    assume "siblingIndex skip cs i Prev = Some k"
    then obtain k' where k': "firstKept skip (rev (take i cs)) = Some k'" "k = i - 1 - k'"
      by (auto simp: siblingIndex_def)
    from k'(1) assms have lt: "k' < i" unfolding firstKept_Some_iff by simp
    from k'(1) have a: "\<not> skip (rev (take i cs) ! k')" "\<forall>j<k'. skip (rev (take i cs) ! j)"
      unfolding firstKept_Some_iff by auto
    have "skip (cs ! j)" if "k < j" "j < i" for j
    proof -
      from that k'(2) lt have l: "i - 1 - j < k'" "i - 1 - j < i" by simp_all
      from a(2) l(1) have "skip (rev (take i cs) ! (i - 1 - j))" by blast
      then have "skip (cs ! (i - 1 - (i - 1 - j)))" by (simp only: nth[OF l(2)])
      moreover have "i - 1 - (i - 1 - j) = j" using that(2) by arith
      ultimately show ?thesis by (simp only:)
    qed
    moreover from a(1) have "\<not> skip (cs ! k)" unfolding nth[OF lt] k'(2) .
    moreover have "k < i" using k'(2) lt by arith
    ultimately
    show "k < i \<and> \<not> skip (cs ! k) \<and> (\<forall>j. k < j \<and> j < i \<longrightarrow> skip (cs ! j))" by blast
  next
    assume r: "k < i \<and> \<not> skip (cs ! k) \<and> (\<forall>j. k < j \<and> j < i \<longrightarrow> skip (cs ! j))"
    define k' where "k' = i - 1 - k"
    from r have k: "k = i - 1 - k'" "k' < i" unfolding k'_def by arith+
    have "skip (rev (take i cs) ! j)" if "j < k'" for j
    proof -
      from that k(2) have ji: "j < i" by simp
      from that r have "k < i - 1 - j \<and> i - 1 - j < i" unfolding k'_def by arith
      with r have "skip (cs ! (i - 1 - j))" by blast
      then show ?thesis by (simp only: nth[OF ji])
    qed
    moreover have "\<not> skip (rev (take i cs) ! k')"
    proof -
      from r have "\<not> skip (cs ! k)" by blast
      with k(1) have "\<not> skip (cs ! (i - 1 - k'))" by simp
      then show ?thesis unfolding nth[OF k(2)] .
    qed
    moreover have "k' < length (rev (take i cs))" using k(2) assms by simp
    ultimately have "firstKept skip (rev (take i cs)) = Some k'"
      unfolding firstKept_Some_iff by blast
    then have "siblingIndex skip cs i Prev = Some (i - 1 - k')"
      by (simp add: siblingIndex_def)
    then show "siblingIndex skip cs i Prev = Some k" by (simp only: k(1)[symmetric])
  qed
qed

lemma mathTokenAt_iff:
  "mathTokenAt ed s = Some q \<longleftrightarrow>
     s = Some q \<and> (\<exists>n. nodeAt ed q = Some n \<and> isMathTokenNode n)"
  by (auto simp: mathTokenAt_def split: option.splits)

lemma math_token_not_empty_text: "isMathTokenNode n \<Longrightarrow> \<not> isEmptyText n"
  by (cases n) auto

text \<open>
  A widget next to a text node, in the words of the amended rule: a sibling of the text
  node on that side that is a widget, with only zero-length text nodes between the two.
\<close>

definition adjacentTokenSpec :: "node \<Rightarrow> path \<Rightarrow> direction \<Rightarrow> path \<Rightarrow> bool" where
  "adjacentTokenSpec ed c dir q \<longleftrightarrow>
     c \<noteq> [] \<and>
     (\<exists>par k. nodeAt ed (butlast c) = Some par \<and> q = butlast c @ [k] \<and>
        k < length (childNodes par) \<and> isMathTokenNode (childNodes par ! k) \<and>
        (if dir = Next
         then last c < k \<and> (\<forall>j. last c < j \<and> j < k \<longrightarrow> isEmptyText (childNodes par ! j))
         else k < last c \<and> (\<forall>j. k < j \<and> j < last c \<longrightarrow> isEmptyText (childNodes par ! j))))"

lemma adjacentMathToken_text:
  assumes t: "nodeAt ed c = Some (TextNode text)"
  shows "adjacentMathToken ed (c, off) dir = Some q \<longleftrightarrow>
         off = (if dir = Next then length text else 0) \<and> adjacentTokenSpec ed c dir q"
proof (cases "c = []")
  case True
  then show ?thesis using t
    by (simp add: adjacentMathToken_def adjacentSignificantSibling_def mathTokenAt_def
        adjacentTokenSpec_def Let_def)
next
  case False
  from nodeAt_parent[OF False t] obtain par where
    par: "nodeAt ed (butlast c) = Some par" "last c < length (childNodes par)" by blast
  define cs where "cs = childNodes par"
  define i where "i = last c"
  have il: "i \<le> length cs" using par(2) by (simp add: cs_def i_def)
  have sib: "adjacentSignificantSibling ed c dir =
      map_option (\<lambda>k. butlast c @ [k]) (siblingIndex isEmptyText cs i dir)"
    using False par(1) by (simp add: adjacentSignificantSibling_def cs_def i_def)
  have at: "nodeAt ed (butlast c @ [k]) = (if k < length cs then Some (cs ! k) else None)" for k
    unfolding nodeAt_snoc using par(1) by (simp add: cs_def)
  have lhs: "adjacentMathToken ed (c, off) dir = Some q \<longleftrightarrow>
      off = (if dir = Next then length text else 0) \<and>
      (\<exists>k. siblingIndex isEmptyText cs i dir = Some k \<and> q = butlast c @ [k] \<and>
           k < length cs \<and> isMathTokenNode (cs ! k))"
    using t by (auto simp: adjacentMathToken_def Let_def mathTokenAt_iff sib at split: if_splits)
  have rhs: "adjacentTokenSpec ed c dir q \<longleftrightarrow>
      (\<exists>k. q = butlast c @ [k] \<and> k < length cs \<and> isMathTokenNode (cs ! k) \<and>
        (if dir = Next
         then i < k \<and> (\<forall>j. i < j \<and> j < k \<longrightarrow> isEmptyText (cs ! j))
         else k < i \<and> (\<forall>j. k < j \<and> j < i \<longrightarrow> isEmptyText (cs ! j))))"
    using False par(1) by (simp add: adjacentTokenSpec_def cs_def i_def)
  have mid: "(siblingIndex isEmptyText cs i dir = Some k \<and> k < length cs \<and> isMathTokenNode (cs ! k))
      \<longleftrightarrow> (k < length cs \<and> isMathTokenNode (cs ! k) \<and>
        (if dir = Next
         then i < k \<and> (\<forall>j. i < j \<and> j < k \<longrightarrow> isEmptyText (cs ! j))
         else k < i \<and> (\<forall>j. k < j \<and> j < i \<longrightarrow> isEmptyText (cs ! j))))" for k
  proof (cases dir)
    case Next
    then show ?thesis
      using math_token_not_empty_text[of "cs ! k"] by (auto simp: siblingIndex_Next_iff)
  next
    case Prev
    then show ?thesis
      using math_token_not_empty_text[of "cs ! k"] by (auto simp: siblingIndex_Prev_iff[OF il])
  qed
  show ?thesis unfolding lhs rhs using mid by blast
qed

lemma adjacentMathToken_element:
  assumes "nodeAt ed c = Some (Element ns tg cl as cs)"
  shows "adjacentMathToken ed (c, off) dir =
     (case dir of
        Next \<Rightarrow> if off < length cs \<and> isMathTokenNode (cs ! off) then Some (c @ [off]) else None
      | Prev \<Rightarrow> if 0 < off \<and> off - 1 < length cs \<and> isMathTokenNode (cs ! (off - 1))
                then Some (c @ [off - 1]) else None)"
  using assms
  by (cases dir) (simp_all add: adjacentMathToken_def mathTokenAt_def nodeAt_snoc)

lemma adjacentMathToken_other:
  assumes "nodeAt ed c = None \<or> nodeAt ed c = Some (CommentNode s)"
  shows "adjacentMathToken ed (c, off) dir = None"
  using assms by (auto simp: adjacentMathToken_def)

subsection \<open>Example documents\<close>

definition editorWith :: "node list \<Rightarrow> node" where
  "editorWith blocks = Element HTML ''div'' [] [(''id'', js ''editor'')] blocks"

definition blockOf :: "node list \<Rightarrow> node" where
  "blockOf cs = Element HTML ''p'' [] [] cs"

definition noRender :: renderer where
  "noRender t d = None"

definition spacedDoc :: node where
  "spacedDoc =
     editorWith [blockOf [TextNode (js ''a''), TextNode (js '' ''),
                            createMathToken noRender (js ''y'') False]]"

definition emptyGapDoc :: node where
  "emptyGapDoc =
     editorWith [blockOf [TextNode (js ''a''), TextNode [],
                            createMathToken noRender (js ''y'') False]]"

text \<open>
  C7, as stated, fails: with the caret at the end of \<open>a\<close>, a whitespace-only text node
  and then a widget after it, no widget is found: only zero-length text nodes are
  skipped.
\<close>

theorem adjacentMathToken_counterexample:
  "nodeAt spacedDoc [0, 0] = Some (TextNode (js ''a'')) \<and>
   map_option isBlankText (nodeAt spacedDoc [0, 1]) = Some True \<and>
   map_option isMathTokenNode (nodeAt spacedDoc [0, 2]) = Some True \<and>
   adjacentMathToken spacedDoc ([0, 0], 1) Next = None"
  by code_simp

text \<open>
  C7, amended. For a caret in a text node a widget is returned exactly when the caret is
  at the edge of the text on that side (its end for \<open>Next\<close>, its start for \<open>Prev\<close>) and
  the widget is a sibling on that side with only zero-length text nodes in between; a
  whitespace-only text node in between hides the widget. For a caret in an element the
  child at the offset (\<open>Next\<close>) or before it (\<open>Prev\<close>) is returned when it is a widget,
  and nothing otherwise; for any other container nothing is returned.
\<close>

theorem adjacentMathToken_rule:
  "(nodeAt ed c = Some (TextNode v) \<longrightarrow>
      (adjacentMathToken ed (c, off) dir = Some q \<longleftrightarrow>
         off = (if dir = Next then length v else 0) \<and> adjacentTokenSpec ed c dir q)) \<and>
   (nodeAt ed c = Some (Element ns tg cl ats cs) \<longrightarrow>
      adjacentMathToken ed (c, off) dir =
        (case dir of
           Next \<Rightarrow> if off < length cs \<and> isMathTokenNode (cs ! off) then Some (c @ [off]) else None
         | Prev \<Rightarrow> if 0 < off \<and> off - 1 < length cs \<and> isMathTokenNode (cs ! (off - 1))
                   then Some (c @ [off - 1]) else None)) \<and>
   (nodeAt ed c = None \<or> nodeAt ed c = Some (CommentNode s) \<longrightarrow>
      adjacentMathToken ed (c, off) dir = None)"
  using adjacentMathToken_text[of ed c v off dir q]
    adjacentMathToken_element[of ed c ns tg cl ats cs off dir]
    adjacentMathToken_other[of ed c s off dir]
  by blast

lemma emptyGapDoc_text: "nodeAt emptyGapDoc [0, 0] = Some (TextNode (js ''a''))"
  by code_simp

lemma emptyGapDoc_adjacent: "adjacentMathToken emptyGapDoc ([0, 0], 1) Next = Some [0, 2]"
  by code_simp

lemma emptyGapDoc_element:
  "nodeAt emptyGapDoc [0] =
     Some (Element HTML ''p'' [] [] [TextNode (js ''a''), TextNode [],
                                createMathToken noRender (js ''y'') False])"
  by code_simp

theorem adjacentMathToken_rule_witness:
  "adjacentTokenSpec emptyGapDoc [0, 0] Next [0, 2] \<and>
   adjacentMathToken emptyGapDoc ([0], 3) Prev = Some [0, 2] \<and>
   adjacentMathToken emptyGapDoc ([0, 7], 0) Next = None"
proof -
  note r = adjacentMathToken_rule[of emptyGapDoc]
  from r[of "[0, 0]" "js ''a''" 1 Next "[0, 2]"] emptyGapDoc_text emptyGapDoc_adjacent
  have 1: "adjacentTokenSpec emptyGapDoc [0, 0] Next [0, 2]" by blast
  from r[of "[0]" _ 3 Prev _ HTML "''p''" "[]" "[]"
      "[TextNode (js ''a''), TextNode [], createMathToken noRender (js ''y'') False]"]
    emptyGapDoc_element
  have 2: "adjacentMathToken emptyGapDoc ([0], 3) Prev = Some [0, 2]"
    by (simp add: createMathToken_def)
  have "nodeAt emptyGapDoc [0, 7] = None" by code_simp
  with r[of "[0, 7]" _ 0 Next] have 3: "adjacentMathToken emptyGapDoc ([0, 7], 0) Next = None"
    by blast
  from 1 2 3 show ?thesis by blast
qed

section \<open>Collapse, delete and merge\<close>

lemma nodeAt_Some_Element:
  "nodeAt ed (i # p) = Some n \<Longrightarrow> \<exists>ns tg cl as cs. ed = Element ns tg cl as cs \<and> i < length cs"
  by (cases ed) (auto split: if_splits)

lemma nodeAt_replaceAt:
  "p \<noteq> [] \<Longrightarrow> nodeAt ed p = Some old \<Longrightarrow> nodeAt (replaceAt ed p new) p = Some new"
proof (induction p arbitrary: ed)
  case Nil
  then show ?case by simp
next
  case (Cons i p)
  from nodeAt_Some_Element[OF Cons.prems(2)] obtain ns tg cl as cs where
    ed: "ed = Element ns tg cl as cs" "i < length cs" by blast
  show ?case
  proof (cases "p = []")
    case True
    with ed show ?thesis by simp
  next
    case False
    from Cons.prems(2) ed have "nodeAt (cs ! i) p = Some old" by simp
    from Cons.IH[OF False this] ed False show ?thesis by simp
  qed
qed

lemma replaceAt_twice:
  "p \<noteq> [] \<Longrightarrow> nodeAt ed p = Some old \<Longrightarrow>
   replaceAt (replaceAt ed p a) p b = replaceAt ed p b"
proof (induction p arbitrary: ed)
  case Nil
  then show ?case by simp
next
  case (Cons i p)
  from nodeAt_Some_Element[OF Cons.prems(2)] obtain ns tg cl as cs where
    ed: "ed = Element ns tg cl as cs" "i < length cs" by blast
  show ?case
  proof (cases "p = []")
    case True
    with ed show ?thesis by simp
  next
    case False
    from Cons.prems(2) ed have "nodeAt (cs ! i) p = Some old" by simp
    from Cons.IH[OF False this] ed False show ?thesis by simp
  qed
qed

lemma length_raw: "length (raw (mathRawForToken n)) = length (tex (mathRawForToken n)) + 2 * delimiterSize (mathRawForToken n)"
  by (simp add: mathRawForToken_def Let_def delimited_def)

lemma delimiterSize_cases:
  "delimiterSize (mathRawForToken n) = (if display (mathRawForToken n) then 2 else 1)"
  by (simp add: mathRawForToken_def Let_def)

lemma expandMathTokenWithOffset_eq:
  assumes "nodeAt (editor st) token = Some tokenNode" "token \<noteq> []"
  shows "expandMathTokenWithOffset token offset st =
     st\<lparr>editor := replaceAt (editor st) token (TextNode (raw (mathRawForToken tokenNode))),
        selection := Some (collapsedAt token
           (nat (max 0 (min offset (int (length (raw (mathRawForToken tokenNode)))))))),
        activeMathEdit := Some token,
        saveScheduled := True,
        previewRefreshed := True\<rparr>"
proof -
  let ?raw = "raw (mathRawForToken tokenNode)"
  have l: "nodeValueLength (replaceAt (editor st) token (TextNode ?raw)) token = length ?raw"
    using nodeAt_replaceAt[OF assms(2,1)] by (simp add: nodeValueLength_def)
  show ?thesis
    using assms(1)
    by (simp add: expandMathTokenWithOffset_def Let_def setCaret_def l scheduleSave_def
        updateMathPreviewCalled_def)
qed

lemma expandMathTokenForBoundaryEdit_eq:
  assumes "nodeAt (editor st) token = Some tokenNode" "token \<noteq> []"
  shows "expandMathTokenForBoundaryEdit token fromSide st =
     st\<lparr>editor := replaceAt (editor st) token (TextNode (raw (mathRawForToken tokenNode))),
        selection := Some (collapsedAt token
           (if fromSide = FromLeft then delimiterSize (mathRawForToken tokenNode)
            else length (raw (mathRawForToken tokenNode)) - delimiterSize (mathRawForToken tokenNode))),
        activeMathEdit := Some token,
        saveScheduled := True,
        previewRefreshed := True\<rparr>"
proof -
  let ?r = "mathRawForToken tokenNode"
  have d: "delimiterSize ?r \<le> length (raw ?r)" by (simp add: length_raw)
  have "nat (max 0 (min (int (delimiterSize ?r)) (int (length (raw ?r))))) = delimiterSize ?r"
    using d by simp
  moreover have "nat (max 0 (min (int (length (raw ?r)) - int (delimiterSize ?r))
      (int (length (raw ?r))))) = length (raw ?r) - delimiterSize ?r"
    using d by simp
  ultimately show ?thesis
    using assms(1) expandMathTokenWithOffset_eq[OF assms]
    by (simp add: expandMathTokenForBoundaryEdit_def Let_def)
qed

lemma adjacentMathToken_Some:
  assumes a: "adjacentMathToken ed range' dir = Some q"
  shows "q \<noteq> [] \<and> (\<exists>n. nodeAt ed q = Some n \<and> isMathTokenNode n)"
proof -
  obtain c off where r: "range' = (c, off)" by (cases range')
  show ?thesis
  proof (cases "nodeAt ed c")
    case None
    with a r adjacentMathToken_other[of ed c _ off dir] show ?thesis by simp
  next
    case (Some n)
    show ?thesis
    proof (cases n)
      case (TextNode v)
      with Some a r have "adjacentTokenSpec ed c dir q"
        using adjacentMathToken_text[of ed c v off dir q] by simp
      then obtain par k where pk: "nodeAt ed (butlast c) = Some par" "q = butlast c @ [k]"
        "k < length (childNodes par)" "isMathTokenNode (childNodes par ! k)"
        unfolding adjacentTokenSpec_def by blast
      from pk(1,3) have "nodeAt ed (butlast c @ [k]) = Some (childNodes par ! k)"
        by (simp add: nodeAt_snoc)
      with pk(2,4) show ?thesis by simp
    next
      case (CommentNode v)
      with Some a r adjacentMathToken_other[of ed c v off dir] show ?thesis by simp
    next
      case (Element ns tg cl ats cs)
      with Some have e: "nodeAt ed c = Some (Element ns tg cl ats cs)" by simp
      from a r have q: "adjacentMathToken ed (c, off) dir = Some q" by simp
      show ?thesis
      proof (cases dir)
        case Next
        with q have "off < length cs \<and> isMathTokenNode (cs ! off) \<and> q = c @ [off]"
          unfolding adjacentMathToken_element[OF e] by (simp split: if_splits)
        then show ?thesis using e by (simp add: nodeAt_snoc)
      next
        case Prev
        with q have "off - 1 < length cs \<and> isMathTokenNode (cs ! (off - 1)) \<and> q = c @ [off - 1]"
          unfolding adjacentMathToken_element[OF e] by (simp split: if_splits)
        then show ?thesis using e by (simp add: nodeAt_snoc)
      qed
    qed
  qed
qed

definition stateWith :: "node \<Rightarrow> path \<Rightarrow> nat \<Rightarrow> editor_state" where
  "stateWith ed p off =
     \<lparr>editor = ed, selection = Some (collapsedAt p off), activeMathEdit = None,
      saveScheduled = False, previewRefreshed = False\<rparr>"

definition arrowDoc :: node where
  "arrowDoc =
     editorWith [blockOf [TextNode (js ''a''), createMathToken noRender (js ''x^2'') False,
                          TextNode (js ''b'')]]"

lemma arrow_example:
  "handleArrowAcrossMathToken ArrowRight (stateWith arrowDoc [0, 0] 1) =
     (True,
      \<lparr>editor = editorWith [blockOf [TextNode (js ''a''), TextNode (js ''$x^2$''),
                                     TextNode (js ''b'')]],
       selection = Some (collapsedAt [0, 1] 1), activeMathEdit = Some [0, 1],
       saveScheduled = True, previewRefreshed = True\<rparr>)"
  by code_simp

text \<open>
  C3. Collapsing the widget at a path of the editor from its left edge puts the caret
  into the raw text at the delimiter size (1 inline, 2 display), from its right edge at
  the raw length less the delimiter size; the raw text stands where the widget stood;
  and whatever offset a collapse is asked for, the caret offset is that offset clamped
  to the range from 0 to the raw length. ArrowRight with the caret at the end of \<open>a\<close>,
  before the inline widget \<open>x^2\<close>, collapses it and puts the caret at offset 1 of
  \<open>$x^2$\<close>.
\<close>

theorem boundary_collapse_offsets:
  assumes "nodeAt (editor st) token = Some tokenNode" and "token \<noteq> []"
  shows "delimiterSize (mathRawForToken tokenNode) =
           (if display (mathRawForToken tokenNode) then 2 else 1) \<and>
         selection (expandMathTokenForBoundaryEdit token FromLeft st) =
           Some (collapsedAt token (delimiterSize (mathRawForToken tokenNode))) \<and>
         selection (expandMathTokenForBoundaryEdit token FromRight st) =
           Some (collapsedAt token
             (length (raw (mathRawForToken tokenNode)) - delimiterSize (mathRawForToken tokenNode))) \<and>
         nodeAt (editor (expandMathTokenForBoundaryEdit token fromSide st)) token =
           Some (TextNode (raw (mathRawForToken tokenNode))) \<and>
         (\<exists>k. k \<le> length (raw (mathRawForToken tokenNode)) \<and>
              int k = max 0 (min offset (int (length (raw (mathRawForToken tokenNode))))) \<and>
              selection (expandMathTokenWithOffset token offset st) = Some (collapsedAt token k)) \<and>
         handleArrowAcrossMathToken ArrowRight (stateWith arrowDoc [0, 0] 1) =
           (True,
            \<lparr>editor = editorWith [blockOf [TextNode (js ''a''), TextNode (js ''$x^2$''),
                                           TextNode (js ''b'')]],
             selection = Some (collapsedAt [0, 1] 1), activeMathEdit = Some [0, 1],
             saveScheduled = True, previewRefreshed = True\<rparr>)"
proof -
  let ?r = "mathRawForToken tokenNode"
  note b = expandMathTokenForBoundaryEdit_eq[OF assms]
  have 1: "selection (expandMathTokenForBoundaryEdit token FromLeft st) =
           Some (collapsedAt token (delimiterSize ?r))"
    unfolding b by simp
  have 2: "selection (expandMathTokenForBoundaryEdit token FromRight st) =
           Some (collapsedAt token (length (raw ?r) - delimiterSize ?r))"
    unfolding b by simp
  have 3: "nodeAt (editor (expandMathTokenForBoundaryEdit token fromSide st)) token =
           Some (TextNode (raw ?r))"
    unfolding b using nodeAt_replaceAt[OF assms(2,1)] by simp
  let ?k = "nat (max 0 (min offset (int (length (raw ?r)))))"
  have 4: "?k \<le> length (raw ?r) \<and> int ?k = max 0 (min offset (int (length (raw ?r)))) \<and>
      selection (expandMathTokenWithOffset token offset st) = Some (collapsedAt token ?k)"
    unfolding expandMathTokenWithOffset_eq[OF assms] by simp
  then have 5: "\<exists>k. k \<le> length (raw ?r) \<and>
              int k = max 0 (min offset (int (length (raw ?r)))) \<and>
              selection (expandMathTokenWithOffset token offset st) = Some (collapsedAt token k)"
    by blast
  show ?thesis using delimiterSize_cases[of tokenNode] 1 2 3 5 arrow_example by blast
qed

lemma arrowDoc_token:
  "nodeAt (editor (stateWith arrowDoc [0, 0] 1)) [0, 1] =
     Some (createMathToken noRender (js ''x^2'') False)"
  by code_simp

theorem boundary_collapse_offsets_witness:
  "selection (expandMathTokenForBoundaryEdit [0, 1] FromRight (stateWith arrowDoc [0, 0] 1)) =
     Some (collapsedAt [0, 1] 4) \<and>
   selection (expandMathTokenForBoundaryEdit [0, 1] FromLeft (stateWith arrowDoc [0, 0] 1)) =
     Some (collapsedAt [0, 1] 1)"
proof -
  have ne: "[0, 1] \<noteq> ([] :: path)" by simp
  have r: "mathRawForToken (createMathToken noRender (js ''x^2'') False) =
      \<lparr>tex = js ''x^2'', display = False, delimiterSize = 1, raw = js ''$x^2$''\<rparr>"
    by code_simp
  have l: "length (js ''$x^2$'') = 5" by (simp add: js_def)
  from boundary_collapse_offsets[OF arrowDoc_token ne, of FromLeft 0]
  show ?thesis unfolding r by (simp add: l)
qed

lemma deleteChar_backward:
  assumes "nodeAt (editor s) p = Some (TextNode v)" "p \<noteq> []" "v \<noteq> []"
  shows "deleteCharInTextNode p (length v) Backward s =
     s\<lparr>editor := replaceAt (editor s) p (TextNode (butlast v)),
       selection := Some (collapsedAt p (length v - 1)),
       saveScheduled := True, previewRefreshed := True\<rparr>"
proof -
  have tv: "textValue (editor s) p = v" using assms(1) by (simp add: textValue_def)
  have sl: "js_slice v 0 (length v - Suc 0) @ js_slice v (length v) (length v) = butlast v"
    by (simp add: js_slice_def butlast_conv_take)
  have l: "nodeValueLength (replaceAt (editor s) p (TextNode (butlast v))) p = length v - Suc 0"
    using nodeAt_replaceAt[OF assms(2,1)] by (simp add: nodeValueLength_def)
  have c: "nat (min (int (length v) - 1) (int (length v - Suc 0))) = length v - Suc 0"
    "nat (int (length v) - 1) = length v - Suc 0"
    using assms(3) by (cases v; simp)+
  show ?thesis
    using assms(3)
    by (simp add: deleteCharInTextNode_def Let_def tv sl setCaret_def l c scheduleSave_def
        updateMathPreviewCalled_def)
qed

lemma deleteChar_forward:
  assumes "nodeAt (editor s) p = Some (TextNode v)" "p \<noteq> []" "v \<noteq> []"
  shows "deleteCharInTextNode p 0 Forward s =
     s\<lparr>editor := replaceAt (editor s) p (TextNode (tl v)),
       selection := Some (collapsedAt p 0),
       saveScheduled := True, previewRefreshed := True\<rparr>"
proof -
  have tv: "textValue (editor s) p = v" using assms(1) by (simp add: textValue_def)
  have sl: "js_slice v 0 0 @ js_slice v (Suc 0) (length v) = tl v"
    by (simp add: js_slice_def drop_Suc)
  show ?thesis
    using assms(3)
    by (simp add: deleteCharInTextNode_def Let_def tv sl setCaret_def scheduleSave_def
        updateMathPreviewCalled_def)
qed

lemma raw_not_Nil: "raw (mathRawForToken n) \<noteq> []"
  using length_raw[of n] delimiterSize_cases[of n] by (auto split: if_splits)

lemma editAdjacent_eq:
  assumes r: "getCollapsedEditorRange st = Some range'"
    and a: "adjacentMathToken (editor st) range' (if k = Backspace then Prev else Next) = Some token"
    and n: "nodeAt (editor st) token = Some tokenNode" and ne: "token \<noteq> []"
  shows "editAdjacentMathTokenWithDelete k st =
     (True,
      st\<lparr>editor := replaceAt (editor st) token
            (TextNode (if k = Backspace then butlast (raw (mathRawForToken tokenNode))
                       else tl (raw (mathRawForToken tokenNode)))),
         selection := Some (collapsedAt token
            (if k = Backspace then length (raw (mathRawForToken tokenNode)) - 1 else 0)),
         activeMathEdit := Some token,
         saveScheduled := True, previewRefreshed := True\<rparr>)"
proof -
  let ?rw = "raw (mathRawForToken tokenNode)"
  have tr: "tokenRaw (editor st) token = ?rw" using n by (simp add: tokenRaw_def)
  have e1: "editor (expandMathTokenWithOffset token off st) =
      replaceAt (editor st) token (TextNode ?rw)" for off
    unfolding expandMathTokenWithOffset_eq[OF n ne] by simp
  have n1: "nodeAt (editor (expandMathTokenWithOffset token off st)) token = Some (TextNode ?rw)"
    for off
    unfolding e1 by (rule nodeAt_replaceAt[OF ne n])
  have tv1: "textValue (editor (expandMathTokenWithOffset token off st)) token = ?rw" for off
    using n1[of off] by (simp add: textValue_def)
  have tw: "replaceAt (replaceAt (editor st) token (TextNode ?rw)) token new =
      replaceAt (editor st) token new" for new
    by (rule replaceAt_twice[OF ne n])
  show ?thesis
  proof (cases "k = Backspace")
    case True
    let ?st1 = "expandMathTokenWithOffset token (int (length ?rw)) st"
    from True a have a': "adjacentMathToken (editor st) range' Prev = Some token" by simp
    have res: "editAdjacentMathTokenWithDelete k st =
        (True, deleteCharInTextNode token (length ?rw) Backward ?st1)"
      using True by (simp add: editAdjacentMathTokenWithDelete_def Let_def r a' tr tv1)
    have "deleteCharInTextNode token (length ?rw) Backward ?st1 =
        ?st1\<lparr>editor := replaceAt (editor ?st1) token (TextNode (butlast ?rw)),
           selection := Some (collapsedAt token (length ?rw - 1)),
           saveScheduled := True, previewRefreshed := True\<rparr>"
      by (rule deleteChar_backward[OF n1 ne raw_not_Nil])
    then show ?thesis unfolding res e1 tw using True
      by (simp add: expandMathTokenWithOffset_eq[OF n ne])
  next
    case False
    let ?st1 = "expandMathTokenWithOffset token 0 st"
    from False a have a': "adjacentMathToken (editor st) range' Next = Some token" by simp
    have res: "editAdjacentMathTokenWithDelete k st =
        (True, deleteCharInTextNode token 0 Forward ?st1)"
      using False by (simp add: editAdjacentMathTokenWithDelete_def Let_def r a')
    have "deleteCharInTextNode token 0 Forward ?st1 =
        ?st1\<lparr>editor := replaceAt (editor ?st1) token (TextNode (tl ?rw)),
           selection := Some (collapsedAt token 0),
           saveScheduled := True, previewRefreshed := True\<rparr>"
      by (rule deleteChar_forward[OF n1 ne raw_not_Nil])
    then show ?thesis unfolding res e1 tw using False
      by (simp add: expandMathTokenWithOffset_eq[OF n ne])
  qed
qed

definition deleteDoc :: node where
  "deleteDoc = editorWith [blockOf [TextNode (js ''a''), createMathToken noRender (js ''y'') False]]"

definition backspaceDoc :: node where
  "backspaceDoc =
     editorWith [blockOf [createMathToken noRender (js ''y'') False, TextNode (js ''b'')]]"

lemma delete_example:
  "keydown Delete (stateWith deleteDoc [0, 0] 1) =
     (True,
      \<lparr>editor = editorWith [blockOf [TextNode (js ''a''), TextNode (js ''y$'')]],
       selection = Some (collapsedAt [0, 1] 0), activeMathEdit = Some [0, 1],
       saveScheduled = True, previewRefreshed = True\<rparr>)"
  by code_simp

text \<open>
  C4. On Delete or Backspace with a collapsed caret in the editor and a widget next to
  it on that side (after it for Delete, before it for Backspace), the keydown handler
  prevents the default action and leaves the state the widget edit alone gives, with no
  merge of blocks: the widget is replaced by its raw text less one code unit at the near
  end (the first for Delete, the last for Backspace), the caret is where the code unit
  was, a save is scheduled and the preview refreshed. Delete before the inline widget
  \<open>$y$\<close> leaves the text \<open>y$\<close> with the caret at offset 0.
\<close>

theorem delete_into_widget:
  assumes "k = Delete \<or> k = Backspace"
    and "getCollapsedEditorRange st = Some range'"
    and "adjacentMathToken (editor st) range' (if k = Backspace then Prev else Next) = Some token"
  shows "map_option isMathTokenNode (nodeAt (editor st) token) = Some True \<and>
     keydown k st =
       (True,
        st\<lparr>editor := replaceAt (editor st) token
              (TextNode (if k = Backspace then butlast (tokenRaw (editor st) token)
                         else tl (tokenRaw (editor st) token))),
           selection := Some (collapsedAt token
              (if k = Backspace then length (tokenRaw (editor st) token) - 1 else 0)),
           activeMathEdit := Some token,
           saveScheduled := True, previewRefreshed := True\<rparr>) \<and>
     keydown k st = editAdjacentMathTokenWithDelete k st \<and>
     length (if k = Backspace then butlast (tokenRaw (editor st) token)
             else tl (tokenRaw (editor st) token)) + 1 = length (tokenRaw (editor st) token) \<and>
     keydown Delete (stateWith deleteDoc [0, 0] 1) =
       (True,
        \<lparr>editor = editorWith [blockOf [TextNode (js ''a''), TextNode (js ''y$'')]],
         selection = Some (collapsedAt [0, 1] 0), activeMathEdit = Some [0, 1],
         saveScheduled = True, previewRefreshed = True\<rparr>)"
proof -
  from adjacentMathToken_Some[OF assms(3)] obtain tokenNode where
    ne: "token \<noteq> []" and n: "nodeAt (editor st) token = Some tokenNode"
    and m: "isMathTokenNode tokenNode" by blast
  have tr: "tokenRaw (editor st) token = raw (mathRawForToken tokenNode)"
    using n by (simp add: tokenRaw_def)
  note e = editAdjacent_eq[OF assms(2,3) n ne]
  have 1: "map_option isMathTokenNode (nodeAt (editor st) token) = Some True"
    using n m by simp
  have 2: "keydown k st = editAdjacentMathTokenWithDelete k st"
    using assms(1) unfolding keydown_def e by auto
  have 3: "length (if k = Backspace then butlast (tokenRaw (editor st) token)
             else tl (tokenRaw (editor st) token)) + 1 = length (tokenRaw (editor st) token)"
    unfolding tr using raw_not_Nil[of tokenNode] by (cases "raw (mathRawForToken tokenNode)") auto
  show ?thesis
    using 1 2 3 delete_example unfolding 2 e tr by blast
qed

lemma backspace_range:
  "getCollapsedEditorRange (stateWith backspaceDoc [0, 1] 0) = Some ([0, 1], 0)"
  by code_simp

lemma backspace_adjacent:
  "adjacentMathToken (editor (stateWith backspaceDoc [0, 1] 0)) ([0, 1], 0)
     (if Backspace = Backspace then Prev else Next) = Some [0, 0]"
  by code_simp

lemma backspace_result:
  "(stateWith backspaceDoc [0, 1] 0)
     \<lparr>editor := replaceAt (editor (stateWith backspaceDoc [0, 1] 0)) [0, 0]
         (TextNode (if Backspace = Backspace
                    then butlast (tokenRaw (editor (stateWith backspaceDoc [0, 1] 0)) [0, 0])
                    else tl (tokenRaw (editor (stateWith backspaceDoc [0, 1] 0)) [0, 0]))),
      selection := Some (collapsedAt [0, 0]
         (if Backspace = Backspace
          then length (tokenRaw (editor (stateWith backspaceDoc [0, 1] 0)) [0, 0]) - 1 else 0)),
      activeMathEdit := Some [0, 0],
      saveScheduled := True, previewRefreshed := True\<rparr> =
   \<lparr>editor = editorWith [blockOf [TextNode (js ''$y''), TextNode (js ''b'')]],
    selection = Some (collapsedAt [0, 0] 2), activeMathEdit = Some [0, 0],
    saveScheduled = True, previewRefreshed = True\<rparr>"
  by code_simp

theorem delete_into_widget_witness:
  "keydown Backspace (stateWith backspaceDoc [0, 1] 0) =
     (True,
      \<lparr>editor = editorWith [blockOf [TextNode (js ''$y''), TextNode (js ''b'')]],
       selection = Some (collapsedAt [0, 0] 2), activeMathEdit = Some [0, 0],
       saveScheduled = True, previewRefreshed = True\<rparr>)"
proof -
  have k: "Backspace = Delete \<or> Backspace = Backspace" by simp
  from delete_into_widget[OF k backspace_range backspace_adjacent]
  show ?thesis unfolding backspace_result by blast
qed

lemma positionFromAncestor_not_Equal [simp]: "positionFromAncestor a oa b \<noteq> Equal"
  by (simp add: positionFromAncestor_def)

lemma boundaryPosition_Equal_iff:
  "boundaryPosition a oa b ob = Equal \<longleftrightarrow> a = b \<and> oa = ob"
proof -
  have "(case positionFromAncestor b ob a of Before \<Rightarrow> After | After \<Rightarrow> Before | Equal \<Rightarrow> Equal)
        \<noteq> Equal"
    by (cases "positionFromAncestor b ob a") simp_all
  then show ?thesis by (auto simp: boundaryPosition_def)
qed

lemma compareBoundaryPoints_zero_iff:
  "compareBoundaryPoints this source = 0 \<longleftrightarrow> this = source"
proof -
  have "compareBoundaryPoints this source = 0 \<longleftrightarrow>
        boundaryPosition (fst this) (snd this) (fst source) (snd source) = Equal"
    by (simp add: compareBoundaryPoints_def split: position.splits)
  then show ?thesis by (auto simp: boundaryPosition_Equal_iff prod_eq_iff)
qed

lemma isRangeAtContainerStart_iff:
  "isRangeAtContainerStart ed range' container \<longleftrightarrow> range' = (container, 0)"
  by (simp add: isRangeAtContainerStart_def compareBoundaryPoints_zero_iff)

lemma nearestEditorChild_bound:
  assumes "nearestEditorChild ed p = Some i"
  shows "i < length (childNodes ed)"
proof -
  from assms obtain n where n: "nodeAt ed p = Some n"
    by (auto simp: nearestEditorChild_def split: option.splits)
  define q where "q = (if isElement n then p else butlast p)"
  from assms n have q: "q \<noteq> []" "i = hd q"
    by (auto simp: nearestEditorChild_def Let_def q_def split: if_splits)
  have "\<exists>m. nodeAt ed q = Some m"
  proof (cases "isElement n")
    case True with n show ?thesis by (simp add: q_def)
  next
    case False
    with q(1) have "p \<noteq> []" by (auto simp: q_def)
    from nodeAt_parent[OF this n] False show ?thesis by (auto simp: q_def)
  qed
  then obtain m where "nodeAt ed q = Some m" by blast
  with q show ?thesis by (cases q) (auto split: if_splits)
qed

text \<open>
  The block a merge takes as its partner: the caret is collapsed in the editor, at the
  edge of its block on that side, and the nearest sibling of the block on that side that
  is not a blank text node is an \<open>HTMLElement\<close>. The result is the index of the caret's block
  and of that sibling in the editor.
\<close>

definition adjacentBlock :: "direction \<Rightarrow> editor_state \<Rightarrow> (nat \<times> nat) option" where
  "adjacentBlock dir st =
     (case getCollapsedEditorRange st of
        None \<Rightarrow> None
      | Some range' \<Rightarrow>
          (case nearestEditorChild (editor st) (fst range') of
             None \<Rightarrow> None
           | Some current \<Rightarrow>
               if \<not> (if dir = Next then isRangeAtContainerEnd (editor st) range' [current]
                      else isRangeAtContainerStart (editor st) range' [current])
               then None
               else (case siblingIndex isBlankText (childNodes (editor st)) current dir of
                       None \<Rightarrow> None
                     | Some adj \<Rightarrow>
                         if isHTMLElement (childNodes (editor st) ! adj) then Some (current, adj)
                         else None)))"



lemma mergePrevious_some:
  assumes "adjacentBlock Prev st = Some (current, previous)"
  shows "mergeWithPreviousEditorBlock st =
     (True,
      st\<lparr>editor := moveChildren (editor st) current previous,
         selection :=
           Some (if 0 < length (childNodes (childNodes (editor st) ! previous))
                 then collapsedAt [previous] (length (childNodes (childNodes (editor st) ! previous)))
                 else if childNodes (childNodes (editor st) ! current) \<noteq> []
                   then collapsedAt [previous] 0
                 else collapsedAt [] previous),
         activeMathEdit :=
           map_option (refAfterMove current previous
                         (length (childNodes (childNodes (editor st) ! previous))))
             (activeMathEdit st),
         saveScheduled := True\<rparr>)"
  using assms
  by (auto simp: adjacentBlock_def mergeWithPreviousEditorBlock_def previousEditorChild_def
      Let_def scheduleSave_def split: option.splits if_splits)


lemma isHTMLElement_isElement: "isHTMLElement n \<Longrightarrow> isElement n"
  by (cases n) simp_all

lemma childNodes_setChildNodes: "isElement n \<Longrightarrow> childNodes (setChildNodes n cs) = cs"
  by (cases n) simp_all

lemma isElement_if_children: "i < length (childNodes n) \<Longrightarrow> isElement n"
  by (cases n) simp_all

lemma childNodes_appendChildren:
  "isElement n \<Longrightarrow> childNodes (appendChildren n moved) = childNodes n @ moved"
  by (simp add: appendChildren_def childNodes_setChildNodes)

lemma adjacentBlock_Prev_facts:
  assumes "adjacentBlock Prev st = Some (current, previous)"
  shows "getCollapsedEditorRange st = Some ([current], 0) \<and>
         previous < current \<and> current < length (childNodes (editor st)) \<and>
         isHTMLElement (childNodes (editor st) ! previous) \<and>
         isElement (childNodes (editor st) ! current) \<and>
         (\<forall>j. previous < j \<and> j < current \<longrightarrow> isBlankText (childNodes (editor st) ! j))"
proof -
  from assms obtain range' where
    r: "getCollapsedEditorRange st = Some range'"
    and c: "nearestEditorChild (editor st) (fst range') = Some current"
    and s: "isRangeAtContainerStart (editor st) range' [current]"
    and p: "siblingIndex isBlankText (childNodes (editor st)) current Prev = Some previous"
    and e: "isHTMLElement (childNodes (editor st) ! previous)"
    by (auto simp: adjacentBlock_def split: option.splits if_splits)
  from s have rg: "range' = ([current], 0)" by (simp add: isRangeAtContainerStart_iff)
  from nearestEditorChild_bound[OF c] have l: "current < length (childNodes (editor st))" .
  from c l have "isElement (childNodes (editor st) ! current)"
    unfolding rg by (auto simp: nearestEditorChild_def Let_def split: if_splits)
  moreover note rg l
  moreover from p l have "previous < current \<and>
      (\<forall>j. previous < j \<and> j < current \<longrightarrow> isBlankText (childNodes (editor st) ! j))"
    using siblingIndex_Prev_iff[of current "childNodes (editor st)" isBlankText previous] by simp
  ultimately show ?thesis using r e by simp
qed

lemma moveChildren_previous:
  assumes "previous < current" "current < length (childNodes ed)"
    "isElement (childNodes ed ! previous)"
  shows "childNodes (moveChildren ed current previous) =
           removeAt ((childNodes ed)[previous :=
             appendChildren (childNodes ed ! previous) (childNodes (childNodes ed ! current))]) current"
    and "childNodes (childNodes (moveChildren ed current previous) ! previous) =
           childNodes (childNodes ed ! previous) @ childNodes (childNodes ed ! current)"
    and "length (childNodes (moveChildren ed current previous)) + 1 = length (childNodes ed)"
proof -
  have el: "isElement ed" using assms(2) by (rule isElement_if_children)
  show 1: "childNodes (moveChildren ed current previous) =
           removeAt ((childNodes ed)[previous :=
             appendChildren (childNodes ed ! previous) (childNodes (childNodes ed ! current))]) current"
    by (simp add: moveChildren_def Let_def childNodes_setChildNodes[OF el])
  show "childNodes (childNodes (moveChildren ed current previous) ! previous) =
           childNodes (childNodes ed ! previous) @ childNodes (childNodes ed ! current)"
    unfolding 1 using assms
    by (simp add: removeAt_def nth_append childNodes_appendChildren)
  show "length (childNodes (moveChildren ed current previous)) + 1 = length (childNodes ed)"
    unfolding 1 using assms by (simp add: removeAt_def)
qed

lemma adjacentMathToken_block_start:
  assumes "current < length (childNodes ed)" "isElement (childNodes ed ! current)"
  shows "adjacentMathToken ed ([current], 0) Prev = None"
proof -
  from assms(2) obtain ns tg cl ats cs where "childNodes ed ! current = Element ns tg cl ats cs"
    by (cases "childNodes ed ! current") simp_all
  with assms(1) have "nodeAt ed [current] = Some (Element ns tg cl ats cs)" by simp
  from adjacentMathToken_element[OF this, of 0 Prev] show ?thesis by simp
qed

lemma editAdjacent_at_block_start:
  assumes "adjacentBlock Prev st = Some (current, previous)"
  shows "editAdjacentMathTokenWithDelete Backspace st = (False, st)"
proof -
  from adjacentBlock_Prev_facts[OF assms] have
    r: "getCollapsedEditorRange st = Some ([current], 0)"
    and l: "current < length (childNodes (editor st))"
    and e: "isElement (childNodes (editor st) ! current)" by blast+
  from r adjacentMathToken_block_start[OF l e] show ?thesis
    by (simp add: editAdjacentMathTokenWithDelete_def)
qed

definition mergeDoc :: node where
  "mergeDoc = editorWith [blockOf [TextNode (js ''foo'')], blockOf [TextNode (js ''bar'')]]"

definition emptyBlocksDoc :: node where
  "emptyBlocksDoc = editorWith [blockOf [], blockOf []]"

lemma merge_example:
  "keydown Backspace (stateWith mergeDoc [1] 0) =
     (True,
      \<lparr>editor = editorWith [blockOf [TextNode (js ''foo''), TextNode (js ''bar'')]],
       selection = Some (collapsedAt [0] 1), activeMathEdit = None,
       saveScheduled = True, previewRefreshed = True\<rparr>)"
  by code_simp

text \<open>
  What a merge at the start boundary of a block does. With the caret collapsed at the
  block element itself, offset 0, and a partner before it, the handler prevents the
  default action; the children of the caret's block are appended in order to the end of
  the partner; the caret's block is removed from the editor and nothing else in it
  changes; a save is scheduled; and the caret is set in the partner after the child
  that was its last, or, when it had none, at its start if children were moved into it
  and before the partner, in the editor, if not.
\<close>

lemma merge_at_block_boundary:
  assumes "adjacentBlock Prev st = Some (current, previous)"
  shows "getCollapsedEditorRange st = Some ([current], 0) \<and>
     previous < current \<and> current < length (childNodes (editor st)) \<and>
     keydown Backspace st = (True, updateMathPreviewCalled (snd (mergeWithPreviousEditorBlock st))) \<and>
     fst (mergeWithPreviousEditorBlock st) \<and>
     childNodes (editor (snd (mergeWithPreviousEditorBlock st))) =
       removeAt ((childNodes (editor st))[previous :=
          appendChildren (childNodes (editor st) ! previous)
            (childNodes (childNodes (editor st) ! current))]) current \<and>
     childNodes (childNodes (editor (snd (mergeWithPreviousEditorBlock st))) ! previous) =
       childNodes (childNodes (editor st) ! previous) @
       childNodes (childNodes (editor st) ! current) \<and>
     length (childNodes (editor (snd (mergeWithPreviousEditorBlock st)))) + 1 =
       length (childNodes (editor st)) \<and>
     selection (snd (mergeWithPreviousEditorBlock st)) =
       Some (if 0 < length (childNodes (childNodes (editor st) ! previous))
             then collapsedAt [previous] (length (childNodes (childNodes (editor st) ! previous)))
             else if childNodes (childNodes (editor st) ! current) \<noteq> []
               then collapsedAt [previous] 0
             else collapsedAt [] previous) \<and>
     saveScheduled (snd (mergeWithPreviousEditorBlock st)) \<and>
     keydown Backspace (stateWith mergeDoc [1] 0) =
       (True,
        \<lparr>editor = editorWith [blockOf [TextNode (js ''foo''), TextNode (js ''bar'')]],
         selection = Some (collapsedAt [0] 1), activeMathEdit = None,
         saveScheduled = True, previewRefreshed = True\<rparr>)"
proof -
  note f = adjacentBlock_Prev_facts[OF assms]
  from f have pc: "previous < current" and cl: "current < length (childNodes (editor st))"
    and hel: "isHTMLElement (childNodes (editor st) ! previous)" by blast+
  from hel have el: "isElement (childNodes (editor st) ! previous)"
    by (rule isHTMLElement_isElement)
  note m = mergePrevious_some[OF assms]
  note mv = moveChildren_previous[OF pc cl el]
  from m obtain st' where m': "mergeWithPreviousEditorBlock st = (True, st')" by blast
  have k: "keydown Backspace st =
      (True, updateMathPreviewCalled (snd (mergeWithPreviousEditorBlock st)))"
    by (simp add: keydown_def editAdjacent_at_block_start[OF assms] m')
  have e: "editor (snd (mergeWithPreviousEditorBlock st)) =
      moveChildren (editor st) current previous"
    unfolding m by simp
  have s: "selection (snd (mergeWithPreviousEditorBlock st)) =
       Some (if 0 < length (childNodes (childNodes (editor st) ! previous))
             then collapsedAt [previous] (length (childNodes (childNodes (editor st) ! previous)))
             else if childNodes (childNodes (editor st) ! current) \<noteq> []
               then collapsedAt [previous] 0
             else collapsedAt [] previous)"
    unfolding m by simp
  have sv: "saveScheduled (snd (mergeWithPreviousEditorBlock st))"
    and h: "fst (mergeWithPreviousEditorBlock st)"
    unfolding m by simp_all
  show ?thesis
    using f k h mv[folded e] s sv merge_example by blast
qed

lemma mergeDoc_adjacent: "adjacentBlock Prev (stateWith mergeDoc [1] 0) = Some (1, 0)"
  by code_simp

lemma merge_at_block_boundary_example:
  "childNodes (childNodes (editor (snd (mergeWithPreviousEditorBlock (stateWith mergeDoc [1] 0)))) ! 0) =
     [TextNode (js ''foo''), TextNode (js ''bar'')] \<and>
   length (childNodes (editor (snd (mergeWithPreviousEditorBlock (stateWith mergeDoc [1] 0))))) = 1 \<and>
   selection (snd (mergeWithPreviousEditorBlock (stateWith mergeDoc [1] 0))) =
     Some (collapsedAt [0] 1) \<and>
   saveScheduled (snd (mergeWithPreviousEditorBlock (stateWith mergeDoc [1] 0)))"
proof -
  let ?st = "stateWith mergeDoc [1] 0"
  note t = merge_at_block_boundary[OF mergeDoc_adjacent]
  have a: "childNodes (childNodes (editor ?st) ! 0) @ childNodes (childNodes (editor ?st) ! 1) =
      [TextNode (js ''foo''), TextNode (js ''bar'')]"
    by code_simp
  have b: "length (childNodes (editor ?st)) = 2" by code_simp
  have c: "Some (if 0 < length (childNodes (childNodes (editor ?st) ! 0))
             then collapsedAt [0] (length (childNodes (childNodes (editor ?st) ! 0)))
             else if childNodes (childNodes (editor ?st) ! 1) \<noteq> []
               then collapsedAt [0] 0
             else collapsedAt [] 0) = Some (collapsedAt [0] 1)"
    by code_simp
  from t have "childNodes (childNodes (editor (snd (mergeWithPreviousEditorBlock ?st))) ! 0) =
      childNodes (childNodes (editor ?st) ! 0) @ childNodes (childNodes (editor ?st) ! 1)"
    by blast
  then have 1: "childNodes (childNodes (editor (snd (mergeWithPreviousEditorBlock ?st))) ! 0) =
      [TextNode (js ''foo''), TextNode (js ''bar'')]"
    unfolding a .
  from t have "length (childNodes (editor (snd (mergeWithPreviousEditorBlock ?st)))) + 1 =
      length (childNodes (editor ?st))" by blast
  then have 2: "length (childNodes (editor (snd (mergeWithPreviousEditorBlock ?st)))) = 1"
    unfolding b by simp
  from t have "selection (snd (mergeWithPreviousEditorBlock ?st)) =
      Some (if 0 < length (childNodes (childNodes (editor ?st) ! 0))
             then collapsedAt [0] (length (childNodes (childNodes (editor ?st) ! 0)))
             else if childNodes (childNodes (editor ?st) ! 1) \<noteq> []
               then collapsedAt [0] 0
             else collapsedAt [] 0)" by blast
  then have 3: "selection (snd (mergeWithPreviousEditorBlock ?st)) = Some (collapsedAt [0] 1)"
    unfolding c .
  from t have 4: "saveScheduled (snd (mergeWithPreviousEditorBlock ?st))" by blast
  from 1 2 3 4 show ?thesis by blast
qed

lemma empty_blocks_example:
  "keydown Backspace (stateWith emptyBlocksDoc [1] 0) =
     (True,
      \<lparr>editor = editorWith [blockOf []],
       selection = Some (collapsedAt [] 0), activeMathEdit = None,
       saveScheduled = True, previewRefreshed = True\<rparr>)"
  by code_simp

lemma text_caret_example:
  "nodeAt mergeDoc [1, 0] = Some (TextNode (js ''bar'')) \<and>
   getCollapsedEditorRange (stateWith mergeDoc [1, 0] 0) = Some ([1, 0], 0) \<and>
   nearestEditorChild mergeDoc [1, 0] = Some 1 \<and>
   compareBoundaryPoints ([1, 0], 0) ([1], 0) = 1 \<and>
   isRangeAtContainerStart mergeDoc ([1, 0], 0) [1] = False \<and>
   mergeWithPreviousEditorBlock (stateWith mergeDoc [1, 0] 0) =
     (False, stateWith mergeDoc [1, 0] 0) \<and>
   keydown Backspace (stateWith mergeDoc [1, 0] 0) =
     (False, (stateWith mergeDoc [1, 0] 0)\<lparr>previewRefreshed := True\<rparr>)"
  by code_simp

text \<open>
  C5 at the blocks \<open>foo\<close> and \<open>bar\<close> with the caret at the start of \<open>bar\<close>, that is
  in the text node \<open>bar\<close> at offset 0, where the caret of a block that starts with text
  is: \<open>isRangeAtContainerStart\<close> compares this boundary point with the start of the
  block's contents and gets 1, not 0, since the two are equal only as the same node with
  the same offset; so \<open>mergeWithPreviousEditorBlock\<close> returns false, nothing is merged
  and the default action is not prevented. Only the caret at the block element itself,
  offset 0, gives the one block \<open>foo\<close>, \<open>bar\<close> with the caret between them. And with
  both blocks empty the caret is set before the previous block, in the editor, and not
  at the start of the previous block.
\<close>

theorem merge_previous_misses_text_caret:
  "nodeAt mergeDoc [1, 0] = Some (TextNode (js ''bar'')) \<and>
   getCollapsedEditorRange (stateWith mergeDoc [1, 0] 0) = Some ([1, 0], 0) \<and>
   nearestEditorChild mergeDoc [1, 0] = Some 1 \<and>
   compareBoundaryPoints ([1, 0], 0) ([1], 0) = 1 \<and>
   isRangeAtContainerStart mergeDoc ([1, 0], 0) [1] = False \<and>
   mergeWithPreviousEditorBlock (stateWith mergeDoc [1, 0] 0) =
     (False, stateWith mergeDoc [1, 0] 0) \<and>
   keydown Backspace (stateWith mergeDoc [1, 0] 0) =
     (False, (stateWith mergeDoc [1, 0] 0)\<lparr>previewRefreshed := True\<rparr>) \<and>
   keydown Backspace (stateWith mergeDoc [1] 0) =
     (True,
      \<lparr>editor = editorWith [blockOf [TextNode (js ''foo''), TextNode (js ''bar'')]],
       selection = Some (collapsedAt [0] 1), activeMathEdit = None,
       saveScheduled = True, previewRefreshed = True\<rparr>) \<and>
   keydown Backspace (stateWith emptyBlocksDoc [1] 0) =
     (True,
      \<lparr>editor = editorWith [blockOf []],
       selection = Some (collapsedAt [] 0), activeMathEdit = None,
       saveScheduled = True, previewRefreshed = True\<rparr>)"
  using text_caret_example merge_example empty_blocks_example by blast

definition emptyNextDoc :: node where
  "emptyNextDoc = editorWith [blockOf [TextNode (js ''foo'')], blockOf []]"


text \<open>
  Delete at the end of a block whose partner has no children: the partner is removed
  from the tree, and the function returns false without scheduling a save.
\<close>

lemma delete_before_empty_block_example:
  "adjacentBlock Next (stateWith emptyNextDoc [0] 1) = Some (0, 1) \<and>
   mergeWithNextEditorBlock (stateWith emptyNextDoc [0] 1) =
     (False, (stateWith emptyNextDoc [0] 1)\<lparr>editor := editorWith [blockOf [TextNode (js ''foo'')]]\<rparr>) \<and>
   fst (keydown Delete (stateWith emptyNextDoc [0] 1)) = False"
  by code_simp






section \<open>Placement of the preview panel\<close>

text \<open>
  C9, as stated, fails: with a caret rectangle from 60 to 560 in a viewport 600 high and
  a panel 120 high there is no room above, and the panel is not put 12 below the
  rectangle (at 572) but at 472, over the rectangle.
\<close>

theorem preview_placement_counterexample:
  "rect_top \<lparr>rect_left = 100, rect_top = 60, rect_bottom = 560\<rparr> - 120 - 10 < 8 \<and>
   snd (previewPlacement \<lparr>rect_left = 100, rect_top = 60, rect_bottom = 560\<rparr> 320 120 1280 600)
     = 472 \<and>
   rect_bottom \<lparr>rect_left = 100, rect_top = 60, rect_bottom = 560\<rparr> + 12 = 572"
  by (simp add: previewPlacement_def orDefault_def Let_def)

text \<open>
  C9, amended. The panel's left is the caret's left clamped to the range from 8 to the
  viewport width less the panel width less 8 (the lower bound wins when the range is
  empty). Its top is the caret's top less the panel height less 10 when that is at least
  8; otherwise it is the smaller of the caret's bottom plus 12 and the viewport height
  less the panel height less 8: 12 below the caret rectangle when the panel then keeps
  8 to the bottom of the viewport, and 8 above the bottom of the viewport when not.
\<close>

theorem preview_placement:
  "previewPlacement caretRect offsetWidth offsetHeight innerWidth innerHeight = (l, t) \<Longrightarrow>
   pw = orDefault offsetWidth 320 \<Longrightarrow> ph = orDefault offsetHeight 120 \<Longrightarrow>
   l = max 8 (min (rect_left caretRect) (innerWidth - pw - 8)) \<and>
   8 \<le> l \<and>
   (pw + 16 \<le> innerWidth \<longrightarrow> l + pw + 8 \<le> innerWidth) \<and>
   (8 \<le> rect_left caretRect \<and> rect_left caretRect + pw + 8 \<le> innerWidth \<longrightarrow>
      l = rect_left caretRect) \<and>
   (8 \<le> rect_top caretRect - ph - 10 \<longrightarrow> t = rect_top caretRect - ph - 10) \<and>
   (rect_top caretRect - ph - 10 < 8 \<longrightarrow>
      t = min (innerHeight - ph - 8) (rect_bottom caretRect + 12)) \<and>
   (rect_top caretRect - ph - 10 < 8 \<and> rect_bottom caretRect + 12 + ph + 8 \<le> innerHeight \<longrightarrow>
      t = rect_bottom caretRect + 12) \<and>
   (rect_top caretRect - ph - 10 < 8 \<and> innerHeight < rect_bottom caretRect + 12 + ph + 8 \<longrightarrow>
      t = innerHeight - ph - 8)"
  by (auto simp: previewPlacement_def Let_def)

theorem preview_placement_witness:
  "previewPlacement \<lparr>rect_left = 1200, rect_top = 40, rect_bottom = 60\<rparr> 0 0 1280 600 = (952, 72)"
proof -
  have p: "previewPlacement \<lparr>rect_left = 1200, rect_top = 40, rect_bottom = 60\<rparr> 0 0 1280 600 =
      (fst (previewPlacement \<lparr>rect_left = 1200, rect_top = 40, rect_bottom = 60\<rparr> 0 0 1280 600),
       snd (previewPlacement \<lparr>rect_left = 1200, rect_top = 40, rect_bottom = 60\<rparr> 0 0 1280 600))"
    by simp
  have w: "(320 :: real) = orDefault 0 320" and h: "(120 :: real) = orDefault 0 120"
    by (simp_all add: orDefault_def)
  from preview_placement[OF p w h]
  have "fst (previewPlacement \<lparr>rect_left = 1200, rect_top = 40, rect_bottom = 60\<rparr> 0 0 1280 600)
      = max 8 (min (rect_left \<lparr>rect_left = 1200, rect_top = 40, rect_bottom = 60\<rparr>) (1280 - 320 - 8))"
    and "rect_top \<lparr>rect_left = 1200, rect_top = 40, rect_bottom = 60\<rparr> - 120 - 10 < 8 \<and>
       rect_bottom \<lparr>rect_left = 1200, rect_top = 40, rect_bottom = 60\<rparr> + 12 + 120 + 8 \<le> 600 \<longrightarrow>
     snd (previewPlacement \<lparr>rect_left = 1200, rect_top = 40, rect_bottom = 60\<rparr> 0 0 1280 600)
      = rect_bottom \<lparr>rect_left = 1200, rect_top = 40, rect_bottom = 60\<rparr> + 12"
    by blast+
  then have "fst (previewPlacement \<lparr>rect_left = 1200, rect_top = 40, rect_bottom = 60\<rparr> 0 0 1280 600) = 952"
    and "snd (previewPlacement \<lparr>rect_left = 1200, rect_top = 40, rect_bottom = 60\<rparr> 0 0 1280 600) = 72"
    by simp_all
  with p show ?thesis by simp
qed

section \<open>What the export hands to the serializer\<close>

text \<open>Whether the rule's filter holds for the node or for a node below it.\<close>

fun containsMathToken :: "node \<Rightarrow> bool" where
  "containsMathToken (Element ns tg cl as cs) =
     (''math-token'' \<in> set cl \<or> list_ex containsMathToken cs)"
| "containsMathToken n = False"

lemma substituteTokens_clean: "\<not> containsMathToken (substituteTokens n)"
proof (induction n)
  case (Element ns tg cl ats cs)
  then show ?case by (auto simp: list_ex_iff Let_def)
qed simp_all

lemma exportClone_clean:
  "\<forall>c \<in> set (childNodes (exportClone ed)). \<not> containsMathToken c"
proof (cases ed)
  case (Element ns tg cl ats cs)
  then show ?thesis by (simp add: exportClone_def substituteTokens_clean)
qed (simp_all add: exportClone_def)

lemma substituteTokens_widget:
  "isMathTokenNode n \<Longrightarrow> substituteTokens n = TextNode (raw (mathRawForToken n))"
  by (cases n) (simp_all add: mathRawForToken_def Let_def delimited_def)

definition displayDoc :: node where
  "displayDoc = editorWith [blockOf [createMathToken noRender (js ''x'') True]]"

text \<open>
  C8 at a display widget with the expression \<open>x\<close>: the rule would give the widget on
  lines of its own, but the clone the serializer gets holds the text \<open>$$x$$\<close> in the
  widget's place and no node the rule applies to.
\<close>

theorem export_bypasses_rule:
  "mathTokenFilter (createMathToken noRender (js ''x'') True) \<and>
   mathTokenReplacement (createMathToken noRender (js ''x'') True) =
     js ''\<newline>\<newline>$$\<newline>x\<newline>$$\<newline>\<newline>'' \<and>
   exportClone displayDoc = editorWith [blockOf [TextNode (js ''$$x$$'')]] \<and>
   list_ex containsMathToken (childNodes (exportClone displayDoc)) = False"
  by code_simp

end
